theory Spec2Isabelle
  imports Main "HOL-Library.Multiset"
begin

section \<open>Go outcomes: normal return versus panic\<close>

text \<open>
  None of the registration or middleware functions of the router has an error result in
  its Go signature: what goes wrong is raised with \<^verbatim>\<open>panic\<close>, either by an explicit
  \<^verbatim>\<open>panic(...)\<close> statement or by the Go runtime (index out of range, call of a nil
  function value). An outcome keeps the two mechanisms apart. \<open>PathMustBeginWithSlash\<close>
  is \<^verbatim>\<open>panic("path must begin with '/'")\<close>.
\<close>

datatype reg_error = InvalidPattern | DuplicateRoute | RouteConflict

datatype panic =
    PathMustBeginWithSlash
  | IndexOutOfRange
  | NilFuncCall
  | ErrRequestNil
  | RegistrationPanic reg_error

datatype 'a outcome = Returns 'a | Panics panic

section \<open>Middleware chains\<close>

text \<open>
  \<^verbatim>\<open>type Middleware []func(http.Handler) http.Handler\<close>. A Go function value may be
  nil, so an entry of the chain is an optional function on handlers; \<open>'h\<close> is the type of
  \<^verbatim>\<open>http.Handler\<close> values.
\<close>

type_synonym 'h Middleware = "('h \<Rightarrow> 'h) option list"

text \<open>
  \<^verbatim>\<open>append(make(Middleware, len(middleware)), middleware...)\<close>: \<^verbatim>\<open>make\<close> with one
  size argument gives a slice of that length filled with the zero value (nil), and
  \<^verbatim>\<open>append\<close> adds the arguments after it.
\<close>

definition NewMiddleware :: "'h Middleware \<Rightarrow> 'h Middleware" where
  "NewMiddleware middleware =
     (if middleware = [] then []
      else replicate (length middleware) None @ middleware)"

text \<open>
  The loop \<^verbatim>\<open>for i := len(mw) - 1; i >= 0; i-- { final = mw[i](final) }\<close>; the first
  argument of \<open>Then_loop\<close> is \<open>i + 1\<close>. Calling a nil function value panics.
\<close>

fun Then_loop :: "nat \<Rightarrow> 'h Middleware \<Rightarrow> 'h \<Rightarrow> 'h outcome" where
  "Then_loop 0 mw final = Returns final"
| "Then_loop (Suc i) mw final =
     (case mw ! i of
        None \<Rightarrow> Panics NilFuncCall
      | Some m \<Rightarrow> Then_loop i mw (m final))"

text \<open>\<open>DefaultServeMux\<close> stands for \<^verbatim>\<open>http.DefaultServeMux\<close>; a nil handler is \<open>None\<close>.\<close>

definition Then :: "'h \<Rightarrow> 'h Middleware \<Rightarrow> 'h option \<Rightarrow> 'h outcome" where
  "Then DefaultServeMux mw h =
     Then_loop (length mw) mw (case h of Some h' \<Rightarrow> h' | None \<Rightarrow> DefaultServeMux)"

text \<open>The nested application \<open>mw[0](mw[1](...(mw[n-1](h))...))\<close> of a chain without nil entries.\<close>

definition composition :: "'h Middleware \<Rightarrow> 'h \<Rightarrow> 'h" where
  "composition mw h = foldr (\<lambda>m acc. the m acc) mw h"

section \<open>The default request-parameter store\<close>

text \<open>
  \<^verbatim>\<open>var paramsMap = make(map[*http.Request]map[string]string, 0)\<close>: a map from request
  pointers (\<open>'r\<close>, with \<open>None\<close> for the nil pointer) to parameter maps (\<open>'p\<close>, with
  \<open>None\<close> for the nil map). The functions take the store and return the new one.
\<close>

type_synonym ('r, 'p) paramsMap = "'r \<rightharpoonup> 'p"

definition paramsMap_init :: "('r, 'p) paramsMap" where
  "paramsMap_init = Map.empty"

definition defaultSetParams ::
  "'r option \<Rightarrow> 'p option \<Rightarrow> ('r, 'p) paramsMap \<Rightarrow> ('r, 'p) paramsMap outcome" where
  "defaultSetParams r params pm =
     (case r of
        None \<Rightarrow> Panics ErrRequestNil
      | Some req \<Rightarrow>
          (case params of
             Some ps \<Rightarrow> Returns (pm(req \<mapsto> ps))
           | None \<Rightarrow> Returns (pm(req := None))))"

definition defaultParams :: "'r option \<Rightarrow> ('r, 'p) paramsMap \<Rightarrow> 'p option outcome" where
  "defaultParams r pm =
     (case r of
        None \<Rightarrow> Panics ErrRequestNil
      | Some req \<Rightarrow>
          (case pm req of
             Some params \<Rightarrow> Returns (Some params)
           | None \<Rightarrow> Returns None))"

text \<open>A sequence of \<open>defaultSetParams\<close> calls, stopping at the first panic.\<close>

fun setParams_calls ::
  "('r option \<times> 'p option) list \<Rightarrow> ('r, 'p) paramsMap \<Rightarrow> ('r, 'p) paramsMap outcome" where
  "setParams_calls [] pm = Returns pm"
| "setParams_calls ((r, params) # cs) pm =
     (case defaultSetParams r params pm of
        Panics e \<Rightarrow> Panics e
      | Returns pm' \<Rightarrow> setParams_calls cs pm')"

section \<open>Route patterns\<close>

text \<open>
  The files of the repository that hold the prefix tree and the path canonicalizer
  (the methods \<^verbatim>\<open>addRoute\<close>, \<^verbatim>\<open>getValue\<close>, \<^verbatim>\<open>findCaseInsensitivePath\<close> of
  \<^verbatim>\<open>node\<close> and the function \<^verbatim>\<open>CleanPath\<close>, all called from router.go) are not among
  the sources. The definitions of this section and of the next three follow the
  specification of these components, sections 3 and 4 of the design, sentence by sentence.
\<close>

text \<open>
  Modelled from the spec: the pattern syntax of the missing \<^verbatim>\<open>addRoute\<close>. A pattern is a
  sequence of literal bytes, \<open>:name\<close> tokens (one path segment) and a final \<open>*name\<close>
  token (the rest of the path). The catch-all token takes the \<open>/\<close> written before it
  with it: router.go documents that \<open>/files/*filepath\<close> matches \<open>/files/\<close> with
  \<open>filepath = "/"\<close> and does not match \<open>/files\<close>.
\<close>

datatype sym = B char | P string | C string

text \<open>
  Modelled from the spec: "parameter names must be non-empty"; a name ends at the next
  \<open>/\<close> or at the end of the pattern, and holds no second wildcard marker.
\<close>

definition valid_name :: "string \<Rightarrow> bool" where
  "valid_name nm \<longleftrightarrow>
     nm \<noteq> [] \<and> CHR '':'' \<notin> set nm \<and> CHR ''*'' \<notin> set nm \<and> CHR ''/'' \<notin> set nm"

text \<open>
  Modelled from the spec: recognition of the wildcard tokens of a pattern ("wildcard tokens
  are recognized when a segment contains \<open>:name\<close> or \<open>*name\<close>"). \<open>None\<close> is a
  malformed pattern: an empty or malformed wildcard name, a catch-all that is not the
  final component (its name would contain \<open>/\<close>), or a \<open>*\<close> with no \<open>/\<close> before it.
\<close>

function tokenize :: "string \<Rightarrow> sym list option" where
  "tokenize [] = Some []"
| "tokenize (c # cs) =
     (if c = CHR ''/'' \<and> cs \<noteq> [] \<and> hd cs = CHR ''*'' then
        (if valid_name (tl cs) then Some [C (tl cs)] else None)
      else if c = CHR '':'' then
        (let nm = takeWhile (\<lambda>x. x \<noteq> CHR ''/'') cs in
         if valid_name nm
         then map_option (Cons (P nm)) (tokenize (dropWhile (\<lambda>x. x \<noteq> CHR ''/'') cs))
         else None)
      else if c = CHR ''*'' then None
      else map_option (Cons (B c)) (tokenize cs))"
  by pat_completeness auto
termination
  by (relation "measure length") (auto simp: length_dropWhile_le less_Suc_eq_le)

fun names :: "sym list \<Rightarrow> string list" where
  "names [] = []"
| "names (B c # pat) = names pat"
| "names (P nm # pat) = nm # names pat"
| "names (C nm # pat) = nm # names pat"

text \<open>
  Modelled from the spec: the validity checks of \<open>insert\<close> that fail with
  \<open>InvalidPattern\<close>: "pattern must begin with \<open>/\<close>", and "parameter names must be
  non-empty and, within one pattern, unique".
\<close>

definition parse_pattern :: "string \<Rightarrow> reg_error + sym list" where
  "parse_pattern pattern =
     (case pattern of
        [] \<Rightarrow> Inl InvalidPattern
      | c # _ \<Rightarrow>
          if c \<noteq> CHR ''/'' then Inl InvalidPattern
          else (case tokenize pattern of
                  None \<Rightarrow> Inl InvalidPattern
                | Some pat \<Rightarrow> if distinct (names pat) then Inr pat else Inl InvalidPattern))"

section \<open>The prefix tree and the route inserter\<close>

text \<open>
  Modelled from the spec: the Node of section 3 (\<^verbatim>\<open>type node\<close> of the missing tree
  file). For a static node \<open>segment\<close> holds the bytes it contributes; for a param or
  catch-all node it holds the wildcard's name, the marker being given by \<open>kind\<close>.
\<close>

datatype kind = Static | Param | CatchAll

datatype 'h node =
  Node (segment: string) (kind: kind) (children: "'h node list")
       (priority: nat) (handler: "'h option") (max_params: nat)

text \<open>Modelled from the spec: the tree of a method before any registration (\<^verbatim>\<open>new(node)\<close>).\<close>

definition empty_tree :: "'h node" where
  "empty_tree = Node [] Static [] 0 None 0"

text \<open>
  Modelled from the spec: the chain of fresh nodes for a pattern remainder that shares
  nothing with the tree: one static node for each run of literal bytes, one node for each
  wildcard, the handler at the last node, every priority 1 and \<open>max_params\<close> the number
  of wildcards from the node downwards.
\<close>

fun mk_chain :: "sym list \<Rightarrow> 'h \<Rightarrow> 'h node" where
  "mk_chain [] h = Node [] Static [] 1 (Some h) 0"
| "mk_chain (B c # pat) h =
     (let n = mk_chain pat h in
      if kind n = Static
      then Node (c # segment n) Static (children n) (priority n) (handler n) (max_params n)
      else Node [c] Static [n] 1 None (max_params n))"
| "mk_chain (P nm # pat) h =
     (if pat = [] then Node nm Param [] 1 (Some h) 1
      else Node nm Param [mk_chain pat h] 1 None (Suc (max_params (mk_chain pat h))))"
| "mk_chain (C nm # pat) h = Node nm CatchAll [] 1 (Some h) 1"

text \<open>
  Modelled from the spec: the length of "the longest common byte prefix between pattern
  and the current node's segment"; a wildcard token ends the common prefix.
\<close>

fun lcp :: "string \<Rightarrow> sym list \<Rightarrow> nat" where
  "lcp (c # seg) (B d # pat) = (if c = d then Suc (lcp seg pat) else 0)"
| "lcp seg pat = 0"

text \<open>Modelled from the spec: the static child picked by the first byte (invariant 2).\<close>

definition sel_static :: "char \<Rightarrow> 'h node \<Rightarrow> bool" where
  "sel_static c x \<longleftrightarrow> kind x = Static \<and> segment x \<noteq> [] \<and> hd (segment x) = c"

text \<open>Modelled from the spec: a fork that has a param or catch-all child (invariant 3).\<close>

definition has_wild :: "'h node list \<Rightarrow> bool" where
  "has_wild cs \<longleftrightarrow> list_ex (\<lambda>x. kind x \<noteq> Static) cs"

fun static_index :: "char \<Rightarrow> 'h node list \<Rightarrow> nat" where
  "static_index c [] = 0"
| "static_index c (x # xs) = (if sel_static c x then 0 else Suc (static_index c xs))"

text \<open>
  Modelled from the spec: the re-sort of the parent's children, a "single adjacent-swap
  pass moving the just-incremented child left while its priority exceeds its
  predecessor's"; the first argument is the index of that child.
\<close>

fun bubble :: "nat \<Rightarrow> 'h node list \<Rightarrow> 'h node list" where
  "bubble 0 cs = cs"
| "bubble (Suc i) cs =
     (if Suc i < length cs \<and> priority (cs ! i) < priority (cs ! Suc i)
      then bubble i (cs[i := cs ! Suc i, Suc i := cs ! i])
      else cs)"

definition child_max :: "'h node list \<Rightarrow> nat" where
  "child_max cs = foldr (\<lambda>x m. max (max_params x) m) cs 0"

definition own_params :: "kind \<Rightarrow> nat" where
  "own_params k = (case k of Static \<Rightarrow> 0 | _ \<Rightarrow> 1)"

text \<open>
  Modelled from the spec: what a successful insertion does to each node on the insertion
  path: new children, \<open>priority\<close> incremented, \<open>max_params\<close> recomputed bottom-up.
\<close>

definition with_children :: "'h node \<Rightarrow> 'h node list \<Rightarrow> 'h node" where
  "with_children x cs =
     Node (segment x) (kind x) cs (Suc (priority x)) (handler x)
          (own_params (kind x) + child_max cs)"

text \<open>
  Modelled from the spec: "if pattern is fully consumed exactly at a node and that node
  already has a handler, fails with \<open>DuplicateRoute\<close>"; otherwise the handler is attached.
\<close>

definition set_handler :: "'h node \<Rightarrow> 'h \<Rightarrow> reg_error + 'h node" where
  "set_handler x h =
     (case handler x of
        Some _ \<Rightarrow> Inl DuplicateRoute
      | None \<Rightarrow> Inr (Node (segment x) (kind x) (children x) (Suc (priority x)) (Some h) (max_params x)))"

text \<open>
  Modelled from the spec: the split. "A new intermediate node takes the common prefix, the
  old node (with its remaining suffix, children, handler, priority) becomes its child, and
  insertion continues from the new intermediate node": there the rest of the pattern is
  empty (the handler goes to the intermediate node), or starts with a literal byte, which
  differs from the old node's first byte (a new static sibling), or starts with a
  wildcard, which conflicts with the static child (invariant 3).
\<close>

definition split_node :: "nat \<Rightarrow> 'h node \<Rightarrow> sym list \<Rightarrow> 'h \<Rightarrow> reg_error + 'h node" where
  "split_node k x rest h =
     (let old = Node (drop k (segment x)) (kind x) (children x) (priority x) (handler x) (max_params x);
          mid = Node (take k (segment x)) Static [old] (priority x) None (max_params x)
      in case rest of
           [] \<Rightarrow> set_handler mid h
         | B c # _ \<Rightarrow> Inr (with_children mid (bubble 1 [old, mk_chain rest h]))
         | _ \<Rightarrow> Inl RouteConflict)"

text \<open>
  Modelled from the spec: the walk of \<open>insert\<close> (the missing \<^verbatim>\<open>addRoute\<close>) below a node
  whose own segment the pattern has consumed. A literal byte goes to the static child with
  that first byte (descending when the child's segment is consumed whole, splitting the
  child otherwise) or becomes a new last child; it conflicts with a param or catch-all child.
  A param token needs a fork that is empty or holds that same param; a catch-all token
  needs an empty fork. Every other wildcard registration is a \<open>RouteConflict\<close>
  (the second registration of the same catch-all is a \<open>DuplicateRoute\<close>).
\<close>

fun ins_below :: "'h node \<Rightarrow> sym list \<Rightarrow> 'h \<Rightarrow> reg_error + 'h node"
and ins_static :: "'h node list \<Rightarrow> char \<Rightarrow> sym list \<Rightarrow> 'h \<Rightarrow> reg_error + 'h node list" where
  "ins_below (Node seg k cs pr hdl mp) pat h =
     (case pat of
        [] \<Rightarrow> set_handler (Node seg k cs pr hdl mp) h
      | B c # _ \<Rightarrow>
          if has_wild cs then Inl RouteConflict
          else (case ins_static cs c pat h of
                  Inl e \<Rightarrow> Inl e
                | Inr cs' \<Rightarrow> Inr (with_children (Node seg k cs pr hdl mp) (bubble (static_index c cs) cs')))
      | P nm # rest \<Rightarrow>
          (case cs of
             [] \<Rightarrow> Inr (with_children (Node seg k cs pr hdl mp) [mk_chain pat h])
           | [x] \<Rightarrow>
               if kind x = Param \<and> segment x = nm
               then (case ins_below x rest h of
                       Inl e \<Rightarrow> Inl e
                     | Inr x' \<Rightarrow> Inr (with_children (Node seg k cs pr hdl mp) [x']))
               else Inl RouteConflict
           | _ \<Rightarrow> Inl RouteConflict)
      | C nm # _ \<Rightarrow>
          (case cs of
             [] \<Rightarrow> Inr (with_children (Node seg k cs pr hdl mp) [mk_chain pat h])
           | [x] \<Rightarrow> if kind x = CatchAll \<and> segment x = nm then Inl DuplicateRoute
                    else Inl RouteConflict
           | _ \<Rightarrow> Inl RouteConflict))"
| "ins_static [] c pat h = Inr [mk_chain pat h]"
| "ins_static (x # xs) c pat h =
     (if sel_static c x then
        (let k = lcp (segment x) pat in
         if k = length (segment x)
         then (case ins_below x (drop k pat) h of
                 Inl e \<Rightarrow> Inl e
               | Inr x' \<Rightarrow> Inr (x' # xs))
         else (case split_node k x (drop k pat) h of
                 Inl e \<Rightarrow> Inl e
               | Inr x' \<Rightarrow> Inr (x' # xs)))
      else (case ins_static xs c pat h of
              Inl e \<Rightarrow> Inl e
            | Inr xs' \<Rightarrow> Inr (x # xs')))"

definition is_empty_tree :: "'h node \<Rightarrow> bool" where
  "is_empty_tree t \<longleftrightarrow> segment t = [] \<and> children t = [] \<and> handler t = None"

text \<open>Modelled from the spec: the root made by the first registration; a root is static.\<close>

definition mk_root :: "sym list \<Rightarrow> 'h \<Rightarrow> 'h node" where
  "mk_root pat h =
     (let n = mk_chain pat h in
      if kind n = Static then n else Node [] Static [n] 1 None (max_params n))"

text \<open>
  Modelled from the spec: \<open>insert\<close> at the root ("walks from the root, consuming the
  longest common byte prefix between pattern and the current node's segment").
\<close>

definition add_route :: "'h node \<Rightarrow> sym list \<Rightarrow> 'h \<Rightarrow> reg_error + 'h node" where
  "add_route root pat h =
     (if is_empty_tree root then Inr (mk_root pat h)
      else let k = lcp (segment root) pat in
           if k = length (segment root) then ins_below root (drop k pat) h
           else split_node k root (drop k pat) h)"

text \<open>
  Modelled from the spec: \<open>insert(tree, pattern, handler)\<close> of section 4.1, the missing
  \<^verbatim>\<open>addRoute\<close>; the in-place mutation is the returned tree.
\<close>

definition insert_route :: "'h node \<Rightarrow> string \<Rightarrow> 'h \<Rightarrow> reg_error + 'h node" where
  "insert_route tree pattern h =
     (case parse_pattern pattern of
        Inl e \<Rightarrow> Inl e
      | Inr pat \<Rightarrow> add_route tree pat h)"

text \<open>Registrations in the order given, stopping at the first that fails.\<close>

fun build :: "'h node \<Rightarrow> (string \<times> 'h) list \<Rightarrow> reg_error + 'h node" where
  "build t [] = Inr t"
| "build t ((p, h) # regs) =
     (case insert_route t p h of Inl e \<Rightarrow> Inl e | Inr t' \<Rightarrow> build t' regs)"

section \<open>The route matcher\<close>

type_synonym params = "(string \<times> string) list"

text \<open>
  Modelled from the spec: the child a lookup continues with: the static child whose first
  byte is the first byte of the remaining input, or a param or catch-all child.
\<close>

definition candidate :: "'h node \<Rightarrow> string \<Rightarrow> bool" where
  "candidate x rest \<longleftrightarrow>
     (case kind x of
        Static \<Rightarrow> segment x \<noteq> [] \<and> rest \<noteq> [] \<and> hd (segment x) = hd rest
      | _ \<Rightarrow> True)"

text \<open>
  Modelled from the spec: the walk of \<open>lookup\<close> (section 4.2, the missing
  \<^verbatim>\<open>getValue\<close>). A static node consumes its segment by byte comparison; a param node
  consumes the bytes up to the next \<open>/\<close> or the end and fails on an empty span; a
  catch-all node consumes the remainder, from the \<open>/\<close> on, and is terminal. A node
  reached with the path consumed gives its handler. The parameters are in pattern order.
\<close>

fun walk :: "'h node \<Rightarrow> string \<Rightarrow> ('h \<times> params) option"
and pick :: "'h node list \<Rightarrow> string \<Rightarrow> ('h \<times> params) option" where
  "walk (Node seg k cs pr hdl mp) path =
     (case k of
        Static \<Rightarrow>
          if take (length seg) path = seg
          then (let rest = drop (length seg) path in
                if rest = [] then map_option (\<lambda>h. (h, [])) hdl else pick cs rest)
          else None
      | Param \<Rightarrow>
          (let v = takeWhile (\<lambda>c. c \<noteq> CHR ''/'') path;
               rest = dropWhile (\<lambda>c. c \<noteq> CHR ''/'') path
           in if v = [] then None
              else map_option (\<lambda>(h, ps). (h, (seg, v) # ps))
                     (if rest = [] then map_option (\<lambda>h. (h, [])) hdl else pick cs rest))
      | CatchAll \<Rightarrow>
          (case path of
             [] \<Rightarrow> None
           | c # _ \<Rightarrow> if c = CHR ''/'' then map_option (\<lambda>h. (h, [(seg, path)])) hdl else None))"
| "pick [] rest = None"
| "pick (x # xs) rest = (if candidate x rest then walk x rest else pick xs rest)"

text \<open>Modelled from the spec: "appending or removing a single trailing \<open>/\<close>".\<close>

definition toggle_slash :: "string \<Rightarrow> string" where
  "toggle_slash path =
     (if path \<noteq> [] \<and> last path = CHR ''/'' then butlast path else path @ ''/'')"

text \<open>
  Modelled from the spec: \<open>lookup(tree, path)\<close>, the missing \<^verbatim>\<open>getValue\<close>, with the
  result triple of router.go: the handler (\<open>None\<close> is nil), the parameters, and the
  trailing-slash hint, which is set when no handler is found "but appending or removing a
  single trailing \<open>/\<close> from path would reach a node with a handler".
\<close>

definition getValue :: "'h node \<Rightarrow> string \<Rightarrow> 'h option \<times> params \<times> bool" where
  "getValue root path =
     (case walk root path of
        Some (h, ps) \<Rightarrow> (Some h, ps, False)
      | None \<Rightarrow> (None, [], walk root (toggle_slash path) \<noteq> None))"

section \<open>The path canonicalizer\<close>

text \<open>
  Modelled from the spec: the components of a path between separators, "collapsing
  consecutive \<open>/\<close> into one"; the first argument is the component being read.
\<close>

fun segments :: "string \<Rightarrow> string \<Rightarrow> string list" where
  "segments cur [] = (if cur = [] then [] else [cur])"
| "segments cur (c # cs) =
     (if c = CHR ''/'' then (if cur = [] then segments [] cs else cur # segments [] cs)
      else segments (cur @ [c]) cs)"

text \<open>
  Modelled from the spec: "resolves \<open>.\<close> segments (removed) and \<open>..\<close> segments (pops the
  previous resolved segment; at root, \<open>..\<close> is a no-op)"; the first argument is the stack
  of resolved segments, last first.
\<close>

fun resolve :: "string list \<Rightarrow> string list \<Rightarrow> string list" where
  "resolve st [] = rev st"
| "resolve st (s # ss) =
     (if s = ''.'' then resolve st ss
      else if s = ''..'' then resolve (tl st) ss
      else resolve (s # st) ss)"

definition join_path :: "string list \<Rightarrow> string" where
  "join_path stack = concat (map (\<lambda>s. CHR ''/'' # s) stack)"

text \<open>
  Modelled from the spec: \<open>clean(path)\<close> of section 4.4, the missing \<^verbatim>\<open>CleanPath\<close>. The
  result starts with \<open>/\<close>, and keeps "a single trailing \<open>/\<close> if and only if the input
  had one (except when the whole resolved path is \<open>/\<close>)".
\<close>

definition clean :: "string \<Rightarrow> string" where
  "clean path =
     (let stack = resolve [] (segments [] path) in
      if stack = [] then ''/''
      else join_path stack @ (if path \<noteq> [] \<and> last path = CHR ''/'' then ''/'' else []))"

section \<open>The router (router.go)\<close>

text \<open>
  router.go calls the tree and the canonicalizer through four functions and refers to two
  values of \<^verbatim>\<open>net/http\<close>. The router is modelled over any such functions: \<open>'n\<close> is the
  type of \<^verbatim>\<open>*node\<close> and \<open>'h\<close> the type of \<^verbatim>\<open>http.Handler\<close>. \<^verbatim>\<open>addRoute\<close> has no
  result in Go and reports by panicking; here it returns the tree it has mutated.
\<close>

record ('n, 'h) core =
  node_new :: 'n
  node_addRoute :: "'n \<Rightarrow> string \<Rightarrow> 'h \<Rightarrow> 'n outcome"
  node_getValue :: "'n \<Rightarrow> string \<Rightarrow> 'h option \<times> params \<times> bool"
  node_findCaseInsensitivePath :: "'n \<Rightarrow> string \<Rightarrow> bool \<Rightarrow> string \<times> bool"
  path_CleanPath :: "string \<Rightarrow> string"
  http_DefaultServeMux :: 'h
  http_NotFound :: 'h

text \<open>
  \<^verbatim>\<open>type Router struct\<close>. \<open>trees\<close> is the map from method to root, as an association
  list whose order is the order in which \<^verbatim>\<open>range r.trees\<close> visits it; reading the nil
  map gives nil. \<open>PanicHandler\<close> records whether the field is set.
\<close>

record ('n, 'h) Router =
  trees :: "(string \<times> 'n) list"
  middleware :: "'h Middleware"
  RedirectTrailingSlash :: bool
  RedirectFixedPath :: bool
  HandleMethodNotAllowed :: bool
  NotFound :: "'h option"
  MethodNotAllowed :: "'h option"
  PanicHandler :: bool

text \<open>\<^verbatim>\<open>func New() *Router\<close>.\<close>

definition New :: "('n, 'h) Router" where
  "New = \<lparr> trees = [], middleware = [], RedirectTrailingSlash = True,
           RedirectFixedPath = True, HandleMethodNotAllowed = True,
           NotFound = None, MethodNotAllowed = None, PanicHandler = False \<rparr>"

text \<open>
  \<^verbatim>\<open>func (r *Router) Handle(method, path string, middleware ...)\<close> applied to the handle:
  the body of the closure it returns. \<^verbatim>\<open>path[0]\<close> on the empty string is the runtime's
  index-out-of-range panic. The result is the router after the call and how the call ended.
\<close>

definition Handle ::
  "('n, 'h) core \<Rightarrow> ('n, 'h) Router \<Rightarrow> string \<Rightarrow> string \<Rightarrow> 'h Middleware \<Rightarrow> 'h
   \<Rightarrow> ('n, 'h) Router \<times> unit outcome" where
  "Handle c r method path mw handle =
     (case path of
        [] \<Rightarrow> (r, Panics IndexOutOfRange)
      | b # _ \<Rightarrow>
          if b \<noteq> CHR ''/'' then (r, Panics PathMustBeginWithSlash)
          else
            (let (r1, root) =
                   (case map_of (trees r) method of
                      Some root \<Rightarrow> (r, root)
                    | None \<Rightarrow> (r\<lparr>trees := trees r @ [(method, node_new c)]\<rparr>, node_new c))
             in case Then (http_DefaultServeMux c) (NewMiddleware mw) (Some handle) of
                  Panics e \<Rightarrow> (r1, Panics e)
                | Returns h \<Rightarrow>
                    (case node_addRoute c root path h of
                       Panics e \<Rightarrow> (r1, Panics e)
                     | Returns root' \<Rightarrow>
                         (r1\<lparr>trees := map (\<lambda>(m, n). if m = method then (m, root') else (m, n))
                                          (trees r1)\<rparr>,
                          Returns ()))))"





text \<open>
  A request is its method and \<^verbatim>\<open>req.URL.Path\<close>. What \<open>ServeHTTP\<close> answers is the
  handler it runs with the parameters, a redirect, the 405 answer or the 404 handler.
\<close>

record request =
  Method :: string
  Path :: string

datatype 'h response =
    Serve "'h outcome" params
  | Redirect string nat
  | MethodNotAllowedResponse "'h option"
  | NotFoundResponse "'h outcome"

text \<open>
  \<open>ServeHTTP\<close> makes its calls to the tree and to the canonicalizer one after another.
  So that their order and their arguments can be spoken of, the three functions it calls
  take and return a state \<open>'s\<close>, which stands for whatever a call may read or change, and
  \<open>ServeHTTP\<close> passes the state from each call to the next. The two values of
  \<^verbatim>\<open>net/http\<close> it uses are carried along.
\<close>

record ('n, 'h, 's) calls =
  call_getValue :: "'n \<Rightarrow> string \<Rightarrow> 's \<Rightarrow> ('h option \<times> params \<times> bool) \<times> 's"
  call_CleanPath :: "string \<Rightarrow> 's \<Rightarrow> string \<times> 's"
  call_findCaseInsensitivePath :: "'n \<Rightarrow> string \<Rightarrow> bool \<Rightarrow> 's \<Rightarrow> (string \<times> bool) \<times> 's"
  val_DefaultServeMux :: 'h
  val_NotFound :: 'h

text \<open>
  The functions of a core, each call writing itself, with the arguments it was given, at
  the end of a list of the calls made so far.
\<close>

datatype 'n call =
    GetValue 'n string
  | CleanPath string
  | FindCaseInsensitivePath 'n string bool

definition recording :: "('n, 'h) core \<Rightarrow> ('n, 'h, 'n call list) calls" where
  "recording c =
     \<lparr> call_getValue = (\<lambda>n path s. (node_getValue c n path, s @ [GetValue n path])),
       call_CleanPath = (\<lambda>path s. (path_CleanPath c path, s @ [CleanPath path])),
       call_findCaseInsensitivePath =
         (\<lambda>n path fixTrailingSlash s.
            (node_findCaseInsensitivePath c n path fixTrailingSlash,
             s @ [FindCaseInsensitivePath n path fixTrailingSlash])),
       val_DefaultServeMux = http_DefaultServeMux c,
       val_NotFound = http_NotFound c \<rparr>"

text \<open>
  The loop \<^verbatim>\<open>for method := range r.trees\<close> of the 405 handling: the requested method is
  skipped, and the loop ends at the first other method whose tree has a handle for the path.
\<close>

fun allowed_loop ::
  "('n, 'h, 's) calls \<Rightarrow> string \<Rightarrow> string \<Rightarrow> (string \<times> 'n) list \<Rightarrow> 's \<Rightarrow> bool \<times> 's" where
  "allowed_loop k m path [] s = (False, s)"
| "allowed_loop k m path ((method, n) # ts) s =
     (if method = m then allowed_loop k m path ts s
      else (case call_getValue k n path s of
              ((Some handle, _, _), s') \<Rightarrow> (True, s')
            | ((None, _, _), s') \<Rightarrow> allowed_loop k m path ts s'))"

text \<open>The part of \<open>ServeHTTP\<close> after the tree of the method: "Handle 405" and "Handle 404".\<close>

definition not_routed ::
  "('n, 'h, 's) calls \<Rightarrow> ('n, 'h) Router \<Rightarrow> request \<Rightarrow> 's \<Rightarrow> 'h response \<times> 's" where
  "not_routed k r req s =
     (case (if HandleMethodNotAllowed r
            then allowed_loop k (Method req) (Path req) (trees r) s
            else (False, s)) of
        (hit, s') \<Rightarrow>
          if hit then (MethodNotAllowedResponse (MethodNotAllowed r), s')
          else (NotFoundResponse
                  (Then (val_DefaultServeMux k) (middleware r)
                     (Some (case NotFound r of Some f \<Rightarrow> f | None \<Rightarrow> val_NotFound k))), s'))"

text \<open>
  \<^verbatim>\<open>func (r *Router) ServeHTTP(w http.ResponseWriter, req *http.Request)\<close>. \<open>Serve next ps\<close>
  is the call \<^verbatim>\<open>r.handler(w, req, ps, next)\<close>. In
  \<^verbatim>\<open>root.findCaseInsensitivePath(CleanPath(path), r.RedirectTrailingSlash)\<close> the argument
  is evaluated before the call. The deferred \<^verbatim>\<open>recv\<close> only runs \<open>PanicHandler\<close> on a
  panic and changes none of the calls.
\<close>

definition ServeHTTP ::
  "('n, 'h, 's) calls \<Rightarrow> ('n, 'h) Router \<Rightarrow> request \<Rightarrow> 's \<Rightarrow> 'h response \<times> 's" where
  "ServeHTTP k r req s =
     (case map_of (trees r) (Method req) of
        None \<Rightarrow> not_routed k r req s
      | Some root \<Rightarrow>
          (let path = Path req in
           case call_getValue k root path s of
             ((Some next, ps, tsr), s1) \<Rightarrow>
               (Serve (if middleware r \<noteq> []
                       then Then (val_DefaultServeMux k) (middleware r) (Some next)
                       else Returns next) ps, s1)
           | ((None, ps, tsr), s1) \<Rightarrow>
               if Method req \<noteq> ''CONNECT'' \<and> path \<noteq> ''/'' then
                 (let code = (if Method req \<noteq> ''GET'' then 307 else 301) in
                  if tsr \<and> RedirectTrailingSlash r then
                    (Redirect (if length path > 1 \<and> last path = CHR ''/''
                               then butlast path else path @ ''/'') code, s1)
                  else if RedirectFixedPath r then
                    (case call_CleanPath k path s1 of
                       (cleaned, s2) \<Rightarrow>
                         (case call_findCaseInsensitivePath k root cleaned (RedirectTrailingSlash r) s2 of
                            ((fixedPath, found), s3) \<Rightarrow>
                              if found then (Redirect fixedPath code, s3)
                              else not_routed k r req s3))
                  else not_routed k r req s1)
               else not_routed k r req s1))"

text \<open>
  What \<open>ServeHTTP\<close> answers to a request and the calls it makes, in order, when the
  functions it calls are those of the core \<open>c\<close>.
\<close>

definition answer_of :: "('n, 'h) core \<Rightarrow> ('n, 'h) Router \<Rightarrow> request \<Rightarrow> 'h response" where
  "answer_of c r req = fst (ServeHTTP (recording c) r req [])"

definition calls_of :: "('n, 'h) core \<Rightarrow> ('n, 'h) Router \<Rightarrow> request \<Rightarrow> 'n call list" where
  "calls_of c r req = snd (ServeHTTP (recording c) r req [])"

text \<open>
  When \<open>ServeHTTP\<close> goes on to the canonicalizer and the corrector after a primary match
  without handler and with the hint \<open>tsr\<close>.
\<close>

definition fixing :: "('n, 'h) Router \<Rightarrow> request \<Rightarrow> bool \<Rightarrow> bool" where
  "fixing r req tsr \<longleftrightarrow>
     Method req \<noteq> ''CONNECT'' \<and> Path req \<noteq> ''/'' \<and> \<not> (tsr \<and> RedirectTrailingSlash r)
     \<and> RedirectFixedPath r"



section \<open>What a pattern matches, and what a tree holds\<close>

text \<open>
  The meaning of a pattern, independent of any tree: a literal byte matches itself, a
  param "matches one path segment, stopping at the next \<open>/\<close> or end of path" and the
  segment is not empty, a catch-all "matches all remaining bytes" from its \<open>/\<close> on. The
  result is the parameters in pattern order.
\<close>

fun pmatch :: "sym list \<Rightarrow> string \<Rightarrow> params option" where
  "pmatch [] path = (if path = [] then Some [] else None)"
| "pmatch (B c # pat) path =
     (case path of [] \<Rightarrow> None | d # rest \<Rightarrow> if c = d then pmatch pat rest else None)"
| "pmatch (P nm # pat) path =
     (let v = takeWhile (\<lambda>c. c \<noteq> CHR ''/'') path in
      if v = [] then None
      else map_option (Cons (nm, v)) (pmatch pat (dropWhile (\<lambda>c. c \<noteq> CHR ''/'') path)))"
| "pmatch (C nm # pat) path =
     (case path of
        [] \<Rightarrow> None
      | c # _ \<Rightarrow> if c = CHR ''/'' \<and> pat = [] then Some [(nm, path)] else None)"

definition pattern_match :: "string \<Rightarrow> string \<Rightarrow> params option" where
  "pattern_match pattern path =
     (case parse_pattern pattern of Inl e \<Rightarrow> None | Inr pat \<Rightarrow> pmatch pat path)"

text \<open>The tokens a node contributes, and the routes (pattern and handler) of a subtree.\<close>

definition label :: "'h node \<Rightarrow> sym list" where
  "label x = (case kind x of
                Static \<Rightarrow> map B (segment x)
              | Param \<Rightarrow> [P (segment x)]
              | CatchAll \<Rightarrow> [C (segment x)])"

fun routes :: "'h node \<Rightarrow> (sym list \<times> 'h) set" where
  "routes (Node seg k cs pr hdl mp) =
     (\<lambda>(p, h). (label (Node seg k cs pr hdl mp) @ p, h)) `
       ((case hdl of None \<Rightarrow> {} | Some h \<Rightarrow> {([], h)}) \<union> (\<Union>x\<in>set cs. routes x))"

definition below :: "'h node \<Rightarrow> (sym list \<times> 'h) set" where
  "below x = (case handler x of None \<Rightarrow> {} | Some h \<Rightarrow> {([], h)}) \<union> (\<Union>y\<in>set (children x). routes y)"

definition pre :: "sym list \<Rightarrow> (sym list \<times> 'h) set \<Rightarrow> (sym list \<times> 'h) set" where
  "pre l R = (\<lambda>(p, h). (l @ p, h)) ` R"

text \<open>
  Invariants 2 to 4 of the data model: the children of a node are static with pairwise
  distinct first bytes, or a single param or catch-all child; a catch-all node has no
  children.
\<close>

definition fork_ok :: "'h node list \<Rightarrow> bool" where
  "fork_ok cs \<longleftrightarrow>
     ((\<forall>x\<in>set cs. kind x = Static \<and> segment x \<noteq> []) \<and> distinct (map (\<lambda>x. hd (segment x)) cs))
     \<or> (\<exists>x. cs = [x] \<and> kind x \<noteq> Static)"

fun wf_node :: "'h node \<Rightarrow> bool" where
  "wf_node (Node seg k cs pr hdl mp) \<longleftrightarrow>
     fork_ok cs \<and> (k = CatchAll \<longrightarrow> cs = []) \<and> (\<forall>x\<in>set cs. wf_node x)"

definition wf_tree :: "'h node \<Rightarrow> bool" where
  "wf_tree t \<longleftrightarrow> kind t = Static \<and> wf_node t"

fun wf_pat :: "sym list \<Rightarrow> bool" where
  "wf_pat [] = True"
| "wf_pat (C nm # pat) = (pat = [])"
| "wf_pat (s # pat) = wf_pat pat"

definition proper :: "'h node \<Rightarrow> bool" where
  "proper x \<longleftrightarrow> (kind x = Static \<longrightarrow> segment x \<noteq> [])"

definition static_fork :: "'h node list \<Rightarrow> bool" where
  "static_fork cs \<longleftrightarrow>
     (\<forall>x\<in>set cs. kind x = Static \<and> segment x \<noteq> []) \<and> distinct (map (\<lambda>x. hd (segment x)) cs)"

text \<open>What an insertion below a node, and into a fork of static children, has to achieve.\<close>

definition good_below :: "'h node \<Rightarrow> sym list \<Rightarrow> 'h \<Rightarrow> 'h node \<Rightarrow> bool" where
  "good_below x pat h x' \<longleftrightarrow>
     segment x' = segment x \<and> kind x' = kind x \<and> below x' = insert (pat, h) (below x)
     \<and> (wf_node x \<and> kind x \<noteq> CatchAll \<longrightarrow> wf_node x')"

definition good_static :: "'h node list \<Rightarrow> char \<Rightarrow> sym list \<Rightarrow> 'h \<Rightarrow> 'h node list \<Rightarrow> bool" where
  "good_static cs c pat h cs' \<longleftrightarrow>
     (\<Union>y\<in>set cs'. routes y) = insert (pat, h) (\<Union>y\<in>set cs. routes y)
     \<and> (static_fork cs \<and> (\<forall>y\<in>set cs. wf_node y) \<longrightarrow> static_fork cs' \<and> (\<forall>y\<in>set cs'. wf_node y))
     \<and> (\<lambda>x. hd (segment x)) ` set cs' \<subseteq> insert c ((\<lambda>x. hd (segment x)) ` set cs)"

text \<open>The pattern string of a token sequence, and the routes of a list of registrations.\<close>

fun render :: "sym list \<Rightarrow> string" where
  "render [] = []"
| "render (B c # pat) = c # render pat"
| "render (P nm # pat) = CHR '':'' # nm @ render pat"
| "render (C nm # pat) = CHR ''/'' # CHR ''*'' # nm @ render pat"

definition reg_routes :: "(string \<times> 'h) list \<Rightarrow> (sym list \<times> 'h) set" where
  "reg_routes regs = {(pat, h). \<exists>p. (p, h) \<in> set regs \<and> parse_pattern p = Inr pat}"

text \<open>
  When two patterns can be registered together (rule 1 of conflict detection, "a static
  child and a wildcard child cannot coexist at the same node", and its consequences): at
  the first token where they differ both continue with a literal byte, or one of them has
  ended. Two equal patterns cannot (the duplicate route).
\<close>

fun isB :: "sym \<Rightarrow> bool" where
  "isB (B c) = True"
| "isB s = False"

fun coexist :: "sym list \<Rightarrow> sym list \<Rightarrow> bool" where
  "coexist [] [] = False"
| "coexist [] (b # q) = True"
| "coexist (a # p) [] = True"
| "coexist (a # p) (b # q) = (if a = b then coexist p q else isB a \<and> isB b)"

definition all_coexist :: "(sym list \<times> 'h) set \<Rightarrow> sym list \<Rightarrow> bool" where
  "all_coexist R pat \<longleftrightarrow> (\<forall>(q, h)\<in>R. coexist pat q)"

text \<open>Every node of the tree has a handler or a child: no branch ends without a route.\<close>

fun live :: "'h node \<Rightarrow> bool" where
  "live (Node seg k cs pr hdl mp) \<longleftrightarrow> (hdl \<noteq> None \<or> cs \<noteq> []) \<and> (\<forall>x\<in>set cs. live x)"

definition tree_ok :: "'h node \<Rightarrow> bool" where
  "tree_ok t \<longleftrightarrow> wf_tree t \<and> (is_empty_tree t \<or> live t)"

text \<open>
  The tokens of a pattern string, and a conflict-free list of registrations: every pattern
  is valid, no pattern is registered twice, and any two of them can coexist. \<open>fits R regs\<close>
  says that each of them can also coexist with the routes \<open>R\<close>.
\<close>

definition toks :: "string \<Rightarrow> sym list" where
  "toks p = (case parse_pattern p of Inl e \<Rightarrow> [] | Inr pat \<Rightarrow> pat)"

definition conflict_free :: "(string \<times> 'h) list \<Rightarrow> bool" where
  "conflict_free regs \<longleftrightarrow>
     (\<forall>(p, h)\<in>set regs. \<not> isl (parse_pattern p))
     \<and> distinct (map fst regs)
     \<and> (\<forall>(p, h)\<in>set regs. \<forall>(q, h')\<in>set regs. p \<noteq> q \<longrightarrow> coexist (toks p) (toks q))"

definition fits :: "(sym list \<times> 'h) set \<Rightarrow> (string \<times> 'h) list \<Rightarrow> bool" where
  "fits R regs \<longleftrightarrow> (\<forall>(p, h)\<in>set regs. all_coexist R (toks p))"

text \<open>A resolved path segment: not empty, without separator.\<close>

definition good :: "string \<Rightarrow> bool" where
  "good s \<longleftrightarrow> s \<noteq> [] \<and> CHR ''/'' \<notin> set s"

section \<open>Middleware: theorems\<close>

lemma NewMiddleware_length: "length (NewMiddleware ms) = 2 * length ms"
  by (simp add: NewMiddleware_def)

lemma NewMiddleware_hd_nil: "ms \<noteq> [] \<Longrightarrow> NewMiddleware ms ! 0 = None"
  by (cases ms) (simp_all add: NewMiddleware_def)

text \<open>
  C8 (code evaluated at the failing input). \<open>NewMiddleware\<close> applied to the one-element
  list \<open>[m]\<close> returns the two-element chain \<open>[nil, m]\<close>, not the chain \<open>[m]\<close>: the
  result has twice the length of the argument and starts with nil entries.
\<close>

theorem NewMiddleware_single_has_nil:
  "NewMiddleware [Some (Suc :: nat \<Rightarrow> nat)] = [None, Some Suc]
   \<and> length (NewMiddleware [Some (Suc :: nat \<Rightarrow> nat)]) = 2"
  by (simp add: NewMiddleware_def)

lemma Then_loop_composition:
  "i \<le> length mw \<Longrightarrow> None \<notin> set (take i mw) \<Longrightarrow>
   Then_loop i mw final = Returns (composition (take i mw) final)"
proof (induction i arbitrary: final)
  case 0
  then show ?case by (simp add: composition_def)
next
  case (Suc i)
  from Suc.prems have lt: "i < length mw" by simp
  then have tk: "take (Suc i) mw = take i mw @ [mw ! i]"
    by (simp add: take_Suc_conv_app_nth)
  with Suc.prems obtain m where m: "mw ! i = Some m"
    by (cases "mw ! i") auto
  from Suc.prems tk have "None \<notin> set (take i mw)" by simp
  with Suc.IH [of "m final"] lt
  have "Then_loop i mw (m final) = Returns (composition (take i mw) (m final))" by simp
  with m tk show ?case by (simp add: composition_def)
qed

text \<open>
  C9 (as amended). For a chain \<open>mw\<close> without nil entries and a non-nil handler \<open>h\<close>,
  \<open>Then\<close> returns \<open>mw[0](mw[1](...(mw[n-1](h))...))\<close>, the first middleware outermost;
  for the empty chain it returns \<open>h\<close> itself; and \<open>Then(nil)\<close> is \<open>Then\<close> of
  \<open>http.DefaultServeMux\<close>.
\<close>

theorem Then_composition:
  "None \<notin> set mw \<Longrightarrow>
     Then d mw (Some h) = Returns (composition mw h)
   \<and> composition (Some f # map Some fs) h = f (composition (map Some fs) h)
   \<and> Then d [] (Some h) = Returns h
   \<and> Then d mw None = Then d mw (Some d)"
  using Then_loop_composition [of "length mw" mw]
  by (simp add: Then_def composition_def)

theorem Then_composition_witness:
  "None \<notin> set [Some Suc, Some (\<lambda>n. 2 * n)]
   \<and> Then (0::nat) [Some Suc, Some (\<lambda>n. 2 * n)] (Some 5) = Returns 11"
  using Then_composition [of "[Some Suc, Some (\<lambda>n. 2 * n)]" 0 5]
  by (simp add: composition_def)

text \<open>
  C9 (counterexample). On the chain \<open>[nil]\<close> and a non-nil handler, \<open>Then\<close> does not
  return: the call of the nil entry panics.
\<close>

theorem Then_nil_entry_counterexample:
  "\<not> (\<exists>g. Then (0::nat) [None] (Some 1) = Returns g)"
  by (simp add: Then_def)

section \<open>Parameter store: theorems\<close>

lemma setParams_calls_other:
  "Some r \<notin> fst ` set cs \<Longrightarrow> setParams_calls cs pm = Returns pm' \<Longrightarrow> pm' r = pm r"
proof (induction cs arbitrary: pm)
  case Nil
  then show ?case by simp
next
  case (Cons c cs)
  obtain r' ps where c: "c = (r', ps)" by (cases c)
  with Cons.prems obtain pm1 where
    s1: "defaultSetParams r' ps pm = Returns pm1" and
    s2: "setParams_calls cs pm1 = Returns pm'"
    by (auto split: outcome.splits)
  from Cons.prems c have ne: "r' \<noteq> Some r" by auto
  with s1 have "pm1 r = pm r"
    by (auto simp: defaultSetParams_def split: option.splits)
  moreover from Cons.prems have "Some r \<notin> fst ` set cs" by auto
  ultimately show ?case using Cons.IH [OF _ s2] by simp
qed

text \<open>
  C10. For a non-nil request \<open>r\<close>: after \<open>defaultSetParams(r, p)\<close> with non-nil \<open>p\<close>,
  \<open>defaultParams(r)\<close> returns \<open>p\<close>; after \<open>defaultSetParams(r, nil)\<close> the association is
  removed and \<open>defaultParams(r)\<close> returns nil; and after any sequence of
  \<open>defaultSetParams\<close> calls on the initial store none of which was given \<open>r\<close>,
  \<open>defaultParams(r)\<close> returns nil.
\<close>

theorem params_store_roundtrip:
  "(\<exists>pm'. defaultSetParams (Some r) (Some p) pm = Returns pm'
          \<and> defaultParams (Some r) pm' = Returns (Some p))
   \<and> (\<exists>pm'. defaultSetParams (Some r) None pm = Returns pm'
          \<and> r \<notin> dom pm' \<and> defaultParams (Some r) pm' = Returns None)
   \<and> (Some r \<notin> fst ` set cs \<longrightarrow> setParams_calls cs paramsMap_init = Returns pm1
        \<longrightarrow> defaultParams (Some r) pm1 = Returns None)"
proof (intro conjI impI)
  show "\<exists>pm'. defaultSetParams (Some r) (Some p) pm = Returns pm'
          \<and> defaultParams (Some r) pm' = Returns (Some p)"
    by (simp add: defaultSetParams_def defaultParams_def)
  show "\<exists>pm'. defaultSetParams (Some r) None pm = Returns pm'
          \<and> r \<notin> dom pm' \<and> defaultParams (Some r) pm' = Returns None"
    by (simp add: defaultSetParams_def defaultParams_def)
next
  assume "Some r \<notin> fst ` set cs" and "setParams_calls cs paramsMap_init = Returns pm1"
  then have "pm1 r = None"
    using setParams_calls_other [of r cs paramsMap_init pm1]
    by (simp add: paramsMap_init_def)
  then show "defaultParams (Some r) pm1 = Returns None"
    by (simp add: defaultParams_def)
qed

theorem params_store_roundtrip_witness:
  "Some (1::nat) \<notin> fst ` set [(Some 2, Some ''a''), (Some 3, None)]
   \<and> setParams_calls [(Some (2::nat), Some ''a''), (Some 3, None)] paramsMap_init
       = Returns [2 \<mapsto> ''a'']
   \<and> defaultParams (Some (1::nat)) [2 \<mapsto> ''a''] = Returns (None :: string option)"
proof -
  have a: "Some (1::nat) \<notin> fst ` set [(Some 2, Some ''a''), (Some 3, None :: string option)]"
    by simp
  have b: "setParams_calls [(Some (2::nat), Some ''a''), (Some 3, None)] paramsMap_init
       = Returns [2 \<mapsto> ''a'']"
    by (simp add: defaultSetParams_def paramsMap_init_def)
  have c: "defaultParams (Some (1::nat)) [2 \<mapsto> ''a''] = Returns (None :: string option)"
    using params_store_roundtrip [of "1::nat" "''a''" Map.empty
      "[(Some 2, Some ''a''), (Some 3, None)]" "[2 \<mapsto> ''a'']"] a b
    by blast
  from a b c show ?thesis by blast
qed

section \<open>Routes of a well-formed tree are unambiguous\<close>

lemma routes_below: "routes x = (\<lambda>(p, h). (label x @ p, h)) ` below x"
  by (cases x) (simp add: below_def)

declare routes.simps [simp del]

lemma routes_iff:
  "(p, h) \<in> routes x \<longleftrightarrow> (\<exists>q. p = label x @ q \<and> (q, h) \<in> below x)"
  by (auto simp: routes_below)

lemma below_iff:
  "(q, h) \<in> below x \<longleftrightarrow>
     (q = [] \<and> handler x = Some h) \<or> (\<exists>y\<in>set (children x). (q, h) \<in> routes y)"
  by (auto simp: below_def split: option.splits)

lemma pmatch_static:
  "pmatch (map B seg @ p) path =
     (if take (length seg) path = seg then pmatch p (drop (length seg) path) else None)"
proof (induction seg arbitrary: path)
  case Nil
  then show ?case by simp
next
  case (Cons c seg)
  then show ?case by (cases path) auto
qed

lemma pmatch_label_nonempty:
  "proper x \<Longrightarrow> pmatch (label x @ q) path = Some m \<Longrightarrow> path \<noteq> []"
  by (cases "kind x"; cases "segment x")
     (auto simp: label_def proper_def split: list.splits if_splits)

lemma pmatch_label_static_hd:
  "kind x = Static \<Longrightarrow> segment x \<noteq> [] \<Longrightarrow> pmatch (label x @ q) path = Some m \<Longrightarrow>
   hd path = hd (segment x)"
  by (cases "segment x"; cases path) (auto simp: label_def split: if_splits)

lemma fork_ok_proper: "fork_ok cs \<Longrightarrow> y \<in> set cs \<Longrightarrow> proper y"
  by (auto simp: fork_ok_def proper_def)

lemma fork_ok_same:
  assumes "fork_ok cs" "y1 \<in> set cs" "y2 \<in> set cs"
    and "pmatch (label y1 @ q1) path = Some m1" "pmatch (label y2 @ q2) path = Some m2"
  shows "y1 = y2"
proof -
  from assms(1) consider
    (static) "\<forall>x\<in>set cs. kind x = Static \<and> segment x \<noteq> []" "distinct (map (\<lambda>x. hd (segment x)) cs)"
    | (wild) x where "cs = [x]"
    by (auto simp: fork_ok_def)
  then show ?thesis
  proof cases
    case static
    with assms(2,3,4,5) have "hd (segment y1) = hd (segment y2)"
      using pmatch_label_static_hd by metis
    moreover from static(2) have "inj_on (\<lambda>x. hd (segment x)) (set cs)"
      by (simp add: distinct_map)
    ultimately show ?thesis using assms(2,3) by (auto dest: inj_onD)
  next
    case wild
    with assms(2,3) show ?thesis by simp
  qed
qed

lemma wf_children: "wf_node x \<Longrightarrow> fork_ok (children x) \<and> (kind x = CatchAll \<longrightarrow> children x = []) \<and> (\<forall>y\<in>set (children x). wf_node y)"
  by (cases x) simp

lemma pmatch_label_cancel:
  assumes "pmatch (label x @ q1) path = Some m1" "pmatch (label x @ q2) path = Some m2"
  shows "\<exists>rest n1 n2. pmatch q1 rest = Some n1 \<and> pmatch q2 rest = Some n2"
proof (cases "kind x")
  case Static
  with assms show ?thesis
    by (auto simp: label_def pmatch_static split: if_splits)
next
  case Param
  with assms show ?thesis
    by (auto simp: label_def Let_def split: if_splits)
next
  case CatchAll
  with assms show ?thesis
    by (auto simp: label_def split: list.splits if_splits)
qed

lemma routes_unique:
  "wf_node x \<Longrightarrow> (p1, h1) \<in> routes x \<Longrightarrow> (p2, h2) \<in> routes x \<Longrightarrow>
   pmatch p1 path = Some m1 \<Longrightarrow> pmatch p2 path = Some m2 \<Longrightarrow> p1 = p2 \<and> h1 = h2"
proof (induction x arbitrary: p1 p2 path m1 m2)
  case (Node seg k cs pr hdl mp)
  let ?x = "Node seg k cs pr hdl mp"
  from Node.prems(2,3) obtain q1 q2 where
    p: "p1 = label ?x @ q1" "p2 = label ?x @ q2" and
    q: "(q1, h1) \<in> below ?x" "(q2, h2) \<in> below ?x"
    by (auto simp: routes_iff)
  from Node.prems(4,5) p obtain rest n1 n2 where
    r: "pmatch q1 rest = Some n1" "pmatch q2 rest = Some n2"
    using pmatch_label_cancel by blast
  from Node.prems(1) have fk: "fork_ok cs" and wfc: "\<forall>y\<in>set cs. wf_node y" by simp_all
  have own_child: False
    if "qa = []" "y \<in> set cs" "(qb, hb) \<in> routes y" "pmatch qa rest = Some na" "pmatch qb rest = Some nb"
    for qa qb y hb na nb
  proof -
    from that(1,4) have "rest = []" by (simp split: if_splits)
    moreover from that(3) obtain q' where "qb = label y @ q'" by (auto simp: routes_iff)
    ultimately show False
      using that(5) pmatch_label_nonempty [OF fork_ok_proper [OF fk that(2)]] by blast
  qed
  from q consider
    (oo) "q1 = []" "hdl = Some h1" "q2 = []" "hdl = Some h2"
    | (oc) y where "q1 = []" "y \<in> set cs" "(q2, h2) \<in> routes y"
    | (co) y where "q2 = []" "y \<in> set cs" "(q1, h1) \<in> routes y"
    | (cc) y1 y2 where "y1 \<in> set cs" "(q1, h1) \<in> routes y1" "y2 \<in> set cs" "(q2, h2) \<in> routes y2"
    by (auto simp: below_iff)
  then show ?case
  proof cases
    case oo
    with p show ?thesis by simp
  next
    case oc
    with own_child r show ?thesis by blast
  next
    case co
    with own_child r show ?thesis by blast
  next
    case cc
    from cc(2,4) obtain q1' q2' where "q1 = label y1 @ q1'" "q2 = label y2 @ q2'"
      by (auto simp: routes_iff)
    with r fk cc(1,3) have "y1 = y2" using fork_ok_same by blast
    with Node.IH [OF cc(1) _ cc(2) _ r] cc wfc have "q1 = q2 \<and> h1 = h2" by blast
    with p show ?thesis by simp
  qed
qed

section \<open>The matcher finds exactly the routes of the tree\<close>

lemma walk_pick_sound:
  "(walk x path = Some (h, ms) \<longrightarrow> (\<exists>p. (p, h) \<in> routes x \<and> pmatch p path = Some ms))"
  "(pick cs rest = Some (h, ms) \<longrightarrow> (\<exists>y\<in>set cs. \<exists>p. (p, h) \<in> routes y \<and> pmatch p rest = Some ms))"
proof (induction x path and cs rest arbitrary: h ms and h ms rule: walk_pick.induct)
  case (1 seg k cs pr hdl mp path)
  let ?x = "Node seg k cs pr hdl mp"
  show ?case
  proof
    assume w: "walk ?x path = Some (h, ms)"
    show "\<exists>p. (p, h) \<in> routes ?x \<and> pmatch p path = Some ms"
    proof (cases k)
      case Static
      with w have tk: "take (length seg) path = seg" by (auto split: if_splits)
      let ?rest = "drop (length seg) path"
      have lab: "label ?x = map B seg" using Static by (simp add: label_def)
      show ?thesis
      proof (cases "?rest = []")
        case True
        with w Static tk have "hdl = Some h" "ms = []" by (auto split: if_splits)
        then have "([], h) \<in> below ?x" by (simp add: below_iff)
        then have "(label ?x @ [], h) \<in> routes ?x" unfolding routes_iff by blast
        moreover have "pmatch (label ?x @ []) path = Some ms"
          using tk True \<open>ms = []\<close> by (simp add: lab pmatch_static del: append_Nil2)
        ultimately show ?thesis by blast
      next
        case False
        with w Static tk have "pick cs ?rest = Some (h, ms)" by (auto split: if_splits)
        with "1.IH"(1) [OF Static tk refl False] obtain y p where
          y: "y \<in> set cs" "(p, h) \<in> routes y" "pmatch p ?rest = Some ms" by blast
        then have "(p, h) \<in> below ?x" by (auto simp: below_iff)
        then have "(label ?x @ p, h) \<in> routes ?x" unfolding routes_iff by blast
        moreover have "pmatch (label ?x @ p) path = Some ms"
          using tk y(3) by (simp add: lab pmatch_static)
        ultimately show ?thesis by blast
      qed
    next
      case Param
      let ?v = "takeWhile (\<lambda>c. c \<noteq> CHR ''/'') path"
      let ?rest = "dropWhile (\<lambda>c. c \<noteq> CHR ''/'') path"
      have lab: "label ?x = [P seg]" using Param by (simp add: label_def)
      from w Param have v: "?v \<noteq> []" by (auto simp: Let_def split: if_splits)
      show ?thesis
      proof (cases "?rest = []")
        case True
        with w Param v have "hdl = Some h" "ms = [(seg, ?v)]"
          by (auto simp: Let_def split: if_splits)
        then have "([], h) \<in> below ?x" by (simp add: below_iff)
        then have "(label ?x @ [], h) \<in> routes ?x" unfolding routes_iff by blast
        moreover have "pmatch (label ?x @ []) path = Some ms"
          using v True \<open>ms = [(seg, ?v)]\<close> by (simp add: lab Let_def)
        ultimately show ?thesis by blast
      next
        case False
        with w Param v obtain ms' where
          pk: "pick cs ?rest = Some (h, ms')" and ms: "ms = (seg, ?v) # ms'"
          by (auto simp: Let_def split: if_splits)
        with "1.IH"(2) [OF Param refl refl v] False obtain y p where
          y: "y \<in> set cs" "(p, h) \<in> routes y" "pmatch p ?rest = Some ms'" by blast
        then have "(p, h) \<in> below ?x" by (auto simp: below_iff)
        then have "(label ?x @ p, h) \<in> routes ?x" unfolding routes_iff by blast
        moreover have "pmatch (label ?x @ p) path = Some ms"
          using v y(3) ms by (simp add: lab Let_def)
        ultimately show ?thesis by blast
      qed
    next
      case CatchAll
      have lab: "label ?x = [C seg]" using CatchAll by (simp add: label_def)
      from w CatchAll obtain rest' where
        "path = CHR ''/'' # rest'" "hdl = Some h" "ms = [(seg, path)]"
        by (auto split: list.splits if_splits)
      then have "([], h) \<in> below ?x" "pmatch (label ?x @ []) path = Some ms"
        using CatchAll by (simp_all add: below_iff label_def)
      then show ?thesis unfolding routes_iff by blast
    qed
  qed
next
  case (2 rest)
  then show ?case by simp
next
  case (3 x xs rest)
  then show ?case by (cases "candidate x rest") auto
qed

lemma walk_sound:
  "walk x path = Some (h, ms) \<Longrightarrow> \<exists>p. (p, h) \<in> routes x \<and> pmatch p path = Some ms"
  by (rule walk_pick_sound(1) [rule_format])

lemma fork_ok_tl: "fork_ok (x # xs) \<Longrightarrow> y \<in> set xs \<Longrightarrow> fork_ok xs"
  by (auto simp: fork_ok_def)

lemma pick_select:
  "fork_ok cs \<Longrightarrow> y \<in> set cs \<Longrightarrow> pmatch (label y @ q) rest = Some n \<Longrightarrow>
   pick cs rest = walk y rest"
proof (induction cs)
  case Nil
  then show ?case by simp
next
  case (Cons x xs)
  from Cons.prems(1,2) have py: "proper y" by (rule fork_ok_proper)
  from py Cons.prems(3) have rest: "rest \<noteq> []" by (rule pmatch_label_nonempty)
  show ?case
  proof (cases "x = y")
    case True
    have "candidate y rest"
    proof (cases "kind y")
      case Static
      with py have "segment y \<noteq> []" by (simp add: proper_def)
      with Static Cons.prems(3) rest show ?thesis
        using pmatch_label_static_hd [of y q rest n] by (simp add: candidate_def)
    qed (simp_all add: candidate_def)
    with True show ?thesis by simp
  next
    case False
    with Cons.prems(2) have yin: "y \<in> set xs" by simp
    from Cons.prems(1) yin have st: "\<forall>z\<in>set (x # xs). kind z = Static \<and> segment z \<noteq> []"
      and ds: "distinct (map (\<lambda>x. hd (segment x)) (x # xs))"
      by (auto simp: fork_ok_def)
    from st yin Cons.prems(3) have "hd rest = hd (segment y)"
      using pmatch_label_static_hd by fastforce
    moreover from ds yin have "hd (segment x) \<noteq> hd (segment y)" by auto
    ultimately have "\<not> candidate x rest" using st by (simp add: candidate_def)
    moreover have "pick xs rest = walk y rest"
      using Cons.IH [OF fork_ok_tl [OF Cons.prems(1) yin] yin Cons.prems(3)] .
    ultimately show ?thesis by simp
  qed
qed

lemma walk_complete:
  "wf_node x \<Longrightarrow> (p, h) \<in> routes x \<Longrightarrow> pmatch p path = Some ms \<Longrightarrow> walk x path = Some (h, ms)"
proof (induction x arbitrary: p path ms)
  case (Node seg k cs pr hdl mp)
  let ?x = "Node seg k cs pr hdl mp"
  from Node.prems(2) obtain q where p: "p = label ?x @ q" and q: "(q, h) \<in> below ?x"
    by (auto simp: routes_iff)
  from Node.prems(1) have fk: "fork_ok cs" and wfc: "\<forall>y\<in>set cs. wf_node y"
    and ca: "k = CatchAll \<Longrightarrow> cs = []" by simp_all
  have step: "(if rest = [] then map_option (\<lambda>h. (h, [])) hdl else pick cs rest) = Some (h, n)"
    if "pmatch q rest = Some n" for rest n
  proof -
    from q consider (own) "q = []" "hdl = Some h" | (child) y where "y \<in> set cs" "(q, h) \<in> routes y"
      by (auto simp: below_iff)
    then show ?thesis
    proof cases
      case own
      with that show ?thesis by (simp split: if_splits)
    next
      case child
      from child(2) obtain q' where q': "q = label y @ q'" by (auto simp: routes_iff)
      with that fk child(1) have ne: "rest \<noteq> []"
        using pmatch_label_nonempty fork_ok_proper by blast
      from q' that have "pick cs rest = walk y rest"
        using pick_select [OF fk child(1)] by blast
      also have "\<dots> = Some (h, n)"
        using Node.IH [OF child(1) _ child(2) that] wfc child(1) by blast
      finally show ?thesis using ne by simp
    qed
  qed
  show ?case
  proof (cases k)
    case Static
    with Node.prems(3) p have tk: "take (length seg) path = seg"
      and m: "pmatch q (drop (length seg) path) = Some ms"
      by (auto simp: label_def pmatch_static split: if_splits)
    from step [OF m] tk Static show ?thesis by (simp add: Let_def)
  next
    case Param
    let ?v = "takeWhile (\<lambda>c. c \<noteq> CHR ''/'') path"
    let ?rest = "dropWhile (\<lambda>c. c \<noteq> CHR ''/'') path"
    from Param Node.prems(3) p obtain n where v: "?v \<noteq> []"
      and m: "pmatch q ?rest = Some n" and ms: "ms = (seg, ?v) # n"
      by (auto simp: label_def Let_def split: if_splits)
    from step [OF m] v ms Param show ?thesis by (simp add: Let_def)
  next
    case CatchAll
    with Node.prems(3) p obtain rest' where
      pa: "path = CHR ''/'' # rest'" "q = []" "ms = [(seg, path)]"
      by (auto simp: label_def split: list.splits if_splits)
    with q ca [OF CatchAll] have "hdl = Some h" by (simp add: below_iff)
    with pa CatchAll show ?thesis by simp
  qed
qed

theorem walk_iff:
  "wf_node x \<Longrightarrow> (walk x path = Some (h, ms)) = (\<exists>p. (p, h) \<in> routes x \<and> pmatch p path = Some ms)"
proof
  assume "walk x path = Some (h, ms)"
  then show "\<exists>p. (p, h) \<in> routes x \<and> pmatch p path = Some ms"
    by (rule walk_sound)
next
  assume "wf_node x" "\<exists>p. (p, h) \<in> routes x \<and> pmatch p path = Some ms"
  then obtain p where "(p, h) \<in> routes x" "pmatch p path = Some ms" by blast
  with \<open>wf_node x\<close> show "walk x path = Some (h, ms)"
    by (rule walk_complete)
qed

section \<open>Fresh chains and the re-sort of children\<close>

lemma wf_node_sel:
  "wf_node x \<longleftrightarrow> fork_ok (children x) \<and> (kind x = CatchAll \<longrightarrow> children x = []) \<and> (\<forall>y\<in>set (children x). wf_node y)"
  by (cases x) simp

lemma label_Node [simp]:
  "label (Node seg k cs pr hdl mp) =
     (case k of Static \<Rightarrow> map B seg | Param \<Rightarrow> [P seg] | CatchAll \<Rightarrow> [C seg])"
  by (cases k) (simp_all add: label_def)

lemma below_Node:
  "below (Node seg k cs pr hdl mp) =
     (case hdl of None \<Rightarrow> {} | Some h \<Rightarrow> {([], h)}) \<union> (\<Union>y\<in>set cs. routes y)"
  by (simp add: below_def)

lemma pre_simps [simp]:
  "pre l {} = {}"
  "pre l (insert (p, h) R) = insert (l @ p, h) (pre l R)"
  "pre l (R \<union> S) = pre l R \<union> pre l S"
  "pre [] R = R"
  "pre l (pre m R) = pre (l @ m) R"
  by (auto simp: pre_def image_iff)

lemma routes_pre: "routes x = pre (label x) (below x)"
  by (simp add: routes_below pre_def)

subsection \<open>mk_chain\<close>

lemma mk_chain_head:
  "kind (mk_chain (B c # pat) h) = Static"
  "segment (mk_chain (B c # pat) h) \<noteq> []"
  "hd (segment (mk_chain (B c # pat) h)) = c"
  "kind (mk_chain (P nm # pat) h) = Param"
  "segment (mk_chain (P nm # pat) h) = nm"
  "kind (mk_chain (C nm # pat) h) = CatchAll"
  "segment (mk_chain (C nm # pat) h) = nm"
  by (simp_all add: Let_def)

lemma mk_chain_proper: "pat \<noteq> [] \<Longrightarrow> proper (mk_chain pat h)"
proof (cases pat)
  case Nil
  assume "pat \<noteq> []"
  with Nil show ?thesis by simp
next
  case (Cons s pat')
  then show ?thesis by (cases s) (auto simp: proper_def Let_def)
qed

lemma mk_chain_routes: "wf_pat pat \<Longrightarrow> routes (mk_chain pat h) = {(pat, h)}"
proof (induction pat h rule: mk_chain.induct)
  case (1 h)
  show ?case by (simp add: routes_pre below_Node)
next
  case (2 c pat h)
  let ?n = "mk_chain pat h"
  from 2 have IH: "routes ?n = {(pat, h)}" by simp
  show ?case
  proof (cases "kind ?n = Static")
    case True
    then have l: "label ?n = map B (segment ?n)" by (simp add: label_def)
    have "routes (mk_chain (B c # pat) h) = pre [B c] (pre (label ?n) (below ?n))"
      using True by (simp add: routes_pre [of "Node _ _ _ _ _ _"] below_Node l below_def Let_def)
    then show ?thesis using IH by (simp add: routes_pre [symmetric] del: pre_simps(5))
  next
    case False
    then have "routes (mk_chain (B c # pat) h) = pre [B c] (routes ?n)"
      by (simp add: routes_pre [of "Node _ _ _ _ _ _"] below_Node Let_def)
    then show ?thesis using IH by simp
  qed
next
  case (3 nm pat h)
  then show ?case
    by (cases "pat = []") (simp_all add: routes_pre [of "Node _ _ _ _ _ _"] below_Node)
next
  case (4 nm pat h)
  then show ?case by (simp add: routes_pre [of "Node _ _ _ _ _ _"] below_Node)
qed

lemma fork_ok_single: "proper x \<Longrightarrow> fork_ok [x]"
  by (auto simp: fork_ok_def proper_def)

lemma fork_ok_Nil [simp]: "fork_ok []"
  by (simp add: fork_ok_def)

lemma mk_chain_wf: "wf_node (mk_chain pat h)"
proof (induction pat h rule: mk_chain.induct)
  case (2 c pat h)
  let ?n = "mk_chain pat h"
  show ?case
  proof (cases "kind ?n = Static")
    case True
    with 2 show ?thesis by (simp add: Let_def wf_node_sel [of ?n])
  next
    case False
    then have "fork_ok [?n]" by (simp add: fork_ok_def)
    with 2 False show ?thesis by (simp add: Let_def)
  qed
next
  case (3 nm pat h)
  then show ?case by (simp add: fork_ok_single mk_chain_proper)
qed simp_all

subsection \<open>bubble\<close>

lemma bubble_mset: "mset (bubble i cs) = mset cs"
proof (induction i cs rule: bubble.induct)
  case (1 cs)
  show ?case by simp
next
  case (2 i cs)
  show ?case
  proof (cases "Suc i < length cs \<and> priority (cs ! i) < priority (cs ! Suc i)")
    case True
    then have "mset (cs[i := cs ! Suc i, Suc i := cs ! i]) = mset cs"
      by (simp add: mset_swap)
    with 2 True show ?thesis by simp
  next
    case False
    then show ?thesis by auto
  qed
qed

lemma bubble_set [simp]: "set (bubble i cs) = set cs"
  using bubble_mset [of i cs] by (metis set_mset_mset)

lemma bubble_length [simp]: "length (bubble i cs) = length cs"
  using bubble_mset [of i cs] by (metis size_mset)

lemma bubble_distinct_map [simp]: "distinct (map f (bubble i cs)) = distinct (map f cs)"
proof -
  have "mset (map f (bubble i cs)) = mset (map f cs)" by (simp add: bubble_mset)
  then show ?thesis by (rule mset_eq_imp_distinct_iff)
qed

lemma fork_ok_bubble [simp]: "fork_ok (bubble i cs) = fork_ok cs"
proof -
  have "(\<exists>x. bubble i cs = [x] \<and> kind x \<noteq> Static) = (\<exists>x. cs = [x] \<and> kind x \<noteq> Static)"
    using bubble_mset [of i cs] by (metis mset_single_iff_right mset.simps(1) mset.simps(2) add_mset_eq_single mset_eq_setD bubble_length bubble_set length_0_conv length_Suc_conv list.simps(15) set_empty singleton_iff insert_iff empty_iff)
  then show ?thesis by (simp add: fork_ok_def)
qed

section \<open>Splitting a node\<close>

subsection \<open>lcp\<close>

lemma lcp_le: "lcp seg pat \<le> length seg"
  by (induction seg pat rule: lcp.induct) auto

lemma lcp_pat: "map B (take (lcp seg pat) seg) @ drop (lcp seg pat) pat = pat"
  by (induction seg pat rule: lcp.induct) auto

lemma lcp_max:
  "lcp seg pat < length seg \<Longrightarrow> drop (lcp seg pat) pat = B c # r \<Longrightarrow> c \<noteq> seg ! lcp seg pat"
  by (induction seg pat rule: lcp.induct) (auto split: if_splits)

lemma lcp_pos: "seg \<noteq> [] \<Longrightarrow> 0 < lcp seg (B (hd seg) # r)"
  by (cases seg) auto

lemma wf_pat_drop: "wf_pat pat \<Longrightarrow> wf_pat (drop k pat)"
proof (induction pat arbitrary: k)
  case Nil
  then show ?case by simp
next
  case (Cons s pat)
  show ?case
  proof (cases k)
    case 0
    with Cons.prems show ?thesis by simp
  next
    case (Suc j)
    from Cons.prems have "wf_pat pat" by (cases s) simp_all
    with Cons.IH [of j] Suc show ?thesis by simp
  qed
qed

subsection \<open>Node updates\<close>

lemma static_fork_ok: "static_fork cs \<Longrightarrow> fork_ok cs"
  by (simp add: static_fork_def fork_ok_def)

lemma fork_ok_no_wild: "fork_ok cs \<Longrightarrow> \<not> has_wild cs \<Longrightarrow> static_fork cs"
  by (auto simp: static_fork_def fork_ok_def has_wild_def list_ex_iff)

lemma with_children_sel [simp]:
  "segment (with_children x cs) = segment x"
  "kind (with_children x cs) = kind x"
  "children (with_children x cs) = cs"
  "handler (with_children x cs) = handler x"
  by (simp_all add: with_children_def)

lemma below_with_children:
  "below (with_children x cs) =
     (case handler x of None \<Rightarrow> {} | Some h \<Rightarrow> {([], h)}) \<union> (\<Union>y\<in>set cs. routes y)"
  by (simp add: below_def)

lemma routes_Node:
  "routes (Node seg k cs pr hdl mp) =
     pre (label (Node seg k cs pr hdl mp)) (below (Node seg k cs pr hdl mp))"
  by (rule routes_pre)

lemma label_cong: "kind x = kind y \<Longrightarrow> segment x = segment y \<Longrightarrow> label x = label y"
  by (cases "kind y") (simp_all add: label_def)

lemma routes_with_children:
  "routes (with_children x cs) =
     pre (label x) ((case handler x of None \<Rightarrow> {} | Some h \<Rightarrow> {([], h)}) \<union> (\<Union>y\<in>set cs. routes y))"
  by (simp add: routes_pre [of "with_children x cs"] below_with_children label_cong [of "with_children x cs" x])

lemma set_handler_good: "set_handler x h = Inr x' \<Longrightarrow> good_below x [] h x'"
  by (auto simp: set_handler_def good_below_def below_def wf_node_sel [of x]
           split: option.splits)

lemma split_good:
  assumes st: "kind x = Static" and k: "k = lcp (segment x) pat" and lt: "k < length (segment x)"
    and wp: "wf_pat pat" and sp: "split_node k x (drop k pat) h = Inr x'"
  shows "kind x' = Static \<and> segment x' = take k (segment x)
         \<and> routes x' = insert (pat, h) (routes x) \<and> (wf_node x \<longrightarrow> wf_node x')"
proof -
  let ?old = "Node (drop k (segment x)) (kind x) (children x) (priority x) (handler x) (max_params x)"
  let ?mid = "Node (take k (segment x)) Static [?old] (priority x) None (max_params x)"
  let ?rest = "drop k pat"
  have pat: "map B (take k (segment x)) @ ?rest = pat" using k lcp_pat by simp
  have wr: "wf_pat ?rest" using wp by (rule wf_pat_drop)
  have bo: "below ?old = below x" by (simp add: below_def)
  have ro: "routes ?old = pre (map B (drop k (segment x))) (below x)"
    using st bo by (simp add: routes_Node)
  have rx: "routes x = pre (map B (take k (segment x))) (routes ?old)"
  proof -
    have "routes x = pre (map B (take k (segment x) @ drop k (segment x))) (below x)"
      using st by (simp add: routes_pre [of x] label_def)
    also have "\<dots> = pre (map B (take k (segment x))) (pre (map B (drop k (segment x))) (below x))"
      by (simp only: map_append pre_simps(5))
    finally show ?thesis by (simp only: ro)
  qed
  have wo: "wf_node x \<Longrightarrow> wf_node ?old" by (simp add: wf_node_sel [of x])
  have po: "proper ?old" using lt by (simp add: proper_def)
  show ?thesis
  proof (cases ?rest)
    case Nil
    with sp have sh: "set_handler ?mid h = Inr x'" by (simp add: split_node_def Let_def)
    from set_handler_good [OF sh] have g: "good_below ?mid [] h x'" .
    then have "routes x' = pre (map B (take k (segment x))) (insert ([], h) (routes ?old))"
      by (simp add: good_below_def routes_pre [of x'] label_def below_Node)
    then have "routes x' = insert (map B (take k (segment x)) @ drop k pat, h) (pre (map B (take k (segment x))) (routes ?old))"
      by (simp only: pre_simps Nil)
    then have "routes x' = insert (pat, h) (routes x)"
      by (simp only: pat rx [symmetric])
    moreover have "wf_node x \<longrightarrow> wf_node x'"
    proof
      assume "wf_node x"
      then have "wf_node ?old" by (rule wo)
      with po have "wf_node ?mid" by (simp add: fork_ok_single)
      with g show "wf_node x'" by (simp add: good_below_def)
    qed
    ultimately show ?thesis using g by (simp add: good_below_def)
  next
    case (Cons s r)
    show ?thesis
    proof (cases s)
      case (B c)
      let ?new = "mk_chain ?rest h"
      from sp Cons B have x': "x' = with_children ?mid (bubble 1 [?old, ?new])"
        by (simp add: split_node_def Let_def)
      have rn: "routes ?new = {(?rest, h)}" using wr by (rule mk_chain_routes)
      have "routes x' = pre (map B (take k (segment x))) (routes ?old \<union> routes ?new)"
        by (simp add: x' routes_with_children Un_commute del: bubble.simps mk_chain.simps)
      then have "routes x' = insert (map B (take k (segment x)) @ drop k pat, h) (pre (map B (take k (segment x))) (routes ?old))"
        by (simp only: rn pre_simps Un_insert_right Un_empty_right)
      then have r: "routes x' = insert (pat, h) (routes x)"
        by (simp only: pat rx [symmetric])
      have "c \<noteq> segment x ! k" using lcp_max [of "segment x" pat c r] lt k Cons B by simp
      moreover have "hd (drop k (segment x)) = segment x ! k" using lt by (simp add: hd_drop_conv_nth)
      ultimately have "static_fork [?old, ?new]"
        using st lt Cons B by (simp add: static_fork_def mk_chain_head del: mk_chain.simps)
      then have "fork_ok (bubble 1 [?old, ?new])" by (simp add: static_fork_ok del: bubble.simps)
      have "wf_node x \<longrightarrow> wf_node x'"
      proof
        assume "wf_node x"
        then have "wf_node ?old" by (rule wo)
        with \<open>fork_ok (bubble 1 [?old, ?new])\<close> show "wf_node x'"
          by (simp add: x' wf_node_sel [of "with_children _ _"] mk_chain_wf
                   del: bubble.simps mk_chain.simps)
      qed
      with r show ?thesis by (simp add: x')
    next
      case (P nm)
      with sp Cons show ?thesis by (simp add: split_node_def Let_def)
    next
      case (C nm)
      with sp Cons show ?thesis by (simp add: split_node_def Let_def)
    qed
  qed
qed

section \<open>Insertion adds one route and keeps the invariants\<close>

lemma routes_good_below:
  assumes "good_below x pat h x'"
  shows "routes x' = insert (label x @ pat, h) (routes x)"
proof -
  from assms have "label x' = label x" by (simp add: good_below_def label_cong [of x' x])
  moreover from assms have "below x' = insert (pat, h) (below x)" by (simp add: good_below_def)
  ultimately show ?thesis by (simp add: routes_pre [of x'] routes_pre [of x])
qed

lemma good_belowI:
  assumes "segment x' = segment x" "kind x' = kind x" "below x' = insert (pat, h) (below x)"
    and "wf_node x \<Longrightarrow> kind x \<noteq> CatchAll \<Longrightarrow> wf_node x'"
  shows "good_below x pat h x'"
  unfolding good_below_def using assms by iprover

lemma good_belowD:
  assumes "good_below x pat h x'"
  shows "segment x' = segment x" "kind x' = kind x" "below x' = insert (pat, h) (below x)"
    and "wf_node x \<Longrightarrow> kind x \<noteq> CatchAll \<Longrightarrow> wf_node x'"
  using assms unfolding good_below_def by iprover+

lemma good_staticI:
  assumes "(\<Union>y\<in>set cs'. routes y) = insert (pat, h) (\<Union>y\<in>set cs. routes y)"
    and "static_fork cs \<Longrightarrow> \<forall>y\<in>set cs. wf_node y \<Longrightarrow> static_fork cs' \<and> (\<forall>y\<in>set cs'. wf_node y)"
    and "(\<lambda>x. hd (segment x)) ` set cs' \<subseteq> insert c ((\<lambda>x. hd (segment x)) ` set cs)"
  shows "good_static cs c pat h cs'"
  unfolding good_static_def using assms by iprover

lemma good_staticD:
  assumes "good_static cs c pat h cs'"
  shows "(\<Union>y\<in>set cs'. routes y) = insert (pat, h) (\<Union>y\<in>set cs. routes y)"
    and "static_fork cs \<Longrightarrow> \<forall>y\<in>set cs. wf_node y \<Longrightarrow> static_fork cs'"
    and "static_fork cs \<Longrightarrow> \<forall>y\<in>set cs. wf_node y \<Longrightarrow> \<forall>y\<in>set cs'. wf_node y"
    and "(\<lambda>x. hd (segment x)) ` set cs' \<subseteq> insert c ((\<lambda>x. hd (segment x)) ` set cs)"
  using assms unfolding good_static_def by iprover+

lemma ins_good:
  "\<forall>x'. ins_below (x :: 'h node) pat h = Inr x' \<longrightarrow> wf_pat pat \<longrightarrow> good_below x pat h x'"
  "\<forall>cs'. ins_static (cs :: 'h node list) c pat2 h2 = Inr cs' \<longrightarrow> wf_pat pat2 \<longrightarrow>
     (\<exists>r. pat2 = B c # r) \<longrightarrow> good_static cs c pat2 h2 cs'"
proof (induct x pat h and cs c pat2 h2 rule: ins_below_ins_static.induct)
  case (1 seg k cs pr hdl mp pat h)
  let ?x = "Node seg k cs pr hdl mp"
  show ?case
  proof (intro allI impI)
    fix x'
    assume ins: "ins_below ?x pat h = Inr x'" and wp: "wf_pat pat"
    show "good_below ?x pat h x'"
    proof (cases pat)
      case Nil
      with ins have "set_handler ?x h = Inr x'" by simp
      then have "good_below ?x [] h x'" by (rule set_handler_good)
      with Nil show ?thesis by simp
    next
      case (Cons s r)
      show ?thesis
      proof (cases s)
        case (B c)
        from ins Cons B have nw: "\<not> has_wild cs" by (simp split: if_splits)
        with ins Cons B obtain cs' where
          st: "ins_static cs c pat h = Inr cs'" and
          x': "x' = with_children ?x (bubble (static_index c cs) cs')"
          by (auto split: sum.splits)
        from "1.hyps"(1) [OF Cons B nw] st wp Cons B have g: "good_static cs c pat h cs'" by blast
        have b: "below x' = insert (pat, h) (below ?x)"
          using good_staticD(1) [OF g] by (simp add: x' below_with_children below_Node)
        have w: "wf_node x'" if w: "wf_node ?x" "kind ?x \<noteq> CatchAll"
        proof -
          from w have "fork_ok cs" and wc: "\<forall>y\<in>set cs. wf_node y" by simp_all
          with nw have sf: "static_fork cs" by (simp add: fork_ok_no_wild)
          have "static_fork cs'" "\<forall>y\<in>set cs'. wf_node y"
            using good_staticD(2,3) [OF g sf wc] by simp_all
          with w(2) show ?thesis
            by (simp add: x' wf_node_sel [of "with_children _ _"] static_fork_ok)
        qed
        show ?thesis
        proof (rule good_belowI)
          show "below x' = insert (pat, h) (below ?x)" by (rule b)
          show "wf_node x'" if "wf_node ?x" "kind ?x \<noteq> CatchAll" using that by (rule w)
        qed (simp_all add: x')
      next
        case (P nm)
        show ?thesis
        proof (cases cs)
          case Nil
          with ins Cons P have x': "x' = with_children ?x [mk_chain pat h]" by simp
          have b: "below x' = insert (pat, h) (below ?x)"
            using wp Nil by (simp add: x' below_with_children below_Node mk_chain_routes)
          have w: "wf_node x'" if "kind ?x \<noteq> CatchAll"
            using that Cons
            by (simp add: x' wf_node_sel [of "with_children _ _"] mk_chain_wf
                          fork_ok_single mk_chain_proper del: mk_chain.simps)
          show ?thesis
          proof (rule good_belowI)
            show "below x' = insert (pat, h) (below ?x)" by (rule b)
            show "wf_node x'" if "wf_node ?x" "kind ?x \<noteq> CatchAll" using that(2) by (rule w)
          qed (simp_all add: x')
        next
          case cs: (Cons y ys)
          with ins Cons P have ys: "ys = []" and y: "kind y = Param \<and> segment y = nm"
            by (auto split: list.splits if_splits)
          with ins Cons P cs obtain y' where
            iy: "ins_below y r h = Inr y'" and x': "x' = with_children ?x [y']"
            by (auto split: sum.splits)
          from wp Cons P have wr: "wf_pat r" by simp
          from "1.hyps"(2) [OF Cons P cs ys y] iy wr have g: "good_below y r h y'" by blast
          have ly: "label y = [P nm]" using y by (simp add: label_def)
          have "routes y' = insert (pat, h) (routes y)"
            using routes_good_below [OF g] ly Cons P by simp
          then have b: "below x' = insert (pat, h) (below ?x)"
            using cs ys by (simp add: x' below_with_children below_Node)
          have w: "wf_node x'" if w: "wf_node ?x" "kind ?x \<noteq> CatchAll"
          proof -
            from w cs have wy: "wf_node y" by simp
            from y have "kind y \<noteq> CatchAll" by simp
            with wy have "wf_node y'" by (rule good_belowD(4) [OF g])
            moreover have "kind y' = Param" using good_belowD(2) [OF g] y by simp
            ultimately show ?thesis using w(2)
              by (simp add: x' wf_node_sel [of "with_children _ _"] fork_ok_def)
          qed
          show ?thesis
          proof (rule good_belowI)
            show "below x' = insert (pat, h) (below ?x)" by (rule b)
            show "wf_node x'" if "wf_node ?x" "kind ?x \<noteq> CatchAll" using that by (rule w)
          qed (simp_all add: x')
        qed
      next
        case (C nm)
        with ins Cons have cs: "cs = []" by (auto split: list.splits if_splits)
        with ins Cons C have x': "x' = with_children ?x [mk_chain pat h]" by simp
        have b: "below x' = insert (pat, h) (below ?x)"
          using wp cs by (simp add: x' below_with_children below_Node mk_chain_routes)
        have w: "wf_node x'" if "kind ?x \<noteq> CatchAll"
          using that Cons
          by (simp add: x' wf_node_sel [of "with_children _ _"] mk_chain_wf
                        fork_ok_single mk_chain_proper del: mk_chain.simps)
        show ?thesis
        proof (rule good_belowI)
          show "below x' = insert (pat, h) (below ?x)" by (rule b)
          show "wf_node x'" if "wf_node ?x" "kind ?x \<noteq> CatchAll" using that(2) by (rule w)
        qed (simp_all add: x')
      qed
    qed
  qed
next
  case (2 c pat h)
  show ?case
  proof (intro allI impI)
    fix cs'
    assume ins: "ins_static [] c pat h = Inr cs'" and wp: "wf_pat pat" and "\<exists>r. pat = B c # r"
    then obtain r where pat: "pat = B c # r" by blast
    from ins have cs': "cs' = [mk_chain pat h]" by simp
    show "good_static [] c pat h cs'"
    proof (rule good_staticI)
      show "(\<Union>y\<in>set cs'. routes y) = insert (pat, h) (\<Union>y\<in>set []. routes y)"
        using wp by (simp add: cs' mk_chain_routes)
      show "static_fork cs' \<and> (\<forall>y\<in>set cs'. wf_node y)"
        by (simp add: cs' static_fork_def mk_chain_wf pat mk_chain_head del: mk_chain.simps)
      show "(\<lambda>x. hd (segment x)) ` set cs' \<subseteq> insert c ((\<lambda>x. hd (segment x)) ` set [])"
        by (simp add: cs' pat mk_chain_head del: mk_chain.simps)
    qed
  qed
next
  case (3 x xs c pat h)
  show ?case
  proof (intro allI impI)
    fix cs'
    assume ins: "ins_static (x # xs) c pat h = Inr cs'" and wp: "wf_pat pat"
      and ex: "\<exists>r. pat = B c # r"
    then obtain r where pat: "pat = B c # r" by blast
    let ?hs = "\<lambda>x. hd (segment x)"
    show "good_static (x # xs) c pat h cs'"
    proof (cases "sel_static c x")
      case True
      then have st: "kind x = Static" and ne: "segment x \<noteq> []" and hd: "hd (segment x) = c"
        by (simp_all add: sel_static_def)
      let ?k = "lcp (segment x) pat"
      have kpos: "0 < ?k" using lcp_pos [OF ne, of r] hd pat by simp
      have lab: "label x = map B (segment x)" using st by (simp add: label_def)
      have key: "\<exists>x'. cs' = x' # xs \<and> kind x' = Static \<and> segment x' \<noteq> [] \<and> ?hs x' = c
                   \<and> routes x' = insert (pat, h) (routes x) \<and> (wf_node x \<longrightarrow> wf_node x')"
      proof (cases "?k = length (segment x)")
        case full: True
        with ins True obtain x' where
          ix: "ins_below x (drop ?k pat) h = Inr x'" and cs': "cs' = x' # xs"
          by (auto simp: Let_def split: sum.splits)
        from "3.hyps"(1) [OF True refl full] ix wf_pat_drop [OF wp]
        have g: "good_below x (drop ?k pat) h x'" by blast
        have "label x @ drop ?k pat = pat"
          using lcp_pat [of "segment x" pat] full by (simp add: lab)
        with routes_good_below [OF g] have r: "routes x' = insert (pat, h) (routes x)" by simp
        have "wf_node x \<longrightarrow> wf_node x'"
          using good_belowD(4) [OF g] st by simp
        with r good_belowD(1,2) [OF g] st ne hd cs' show ?thesis by simp
      next
        case part: False
        with lcp_le [of "segment x" pat] have lt: "?k < length (segment x)" by simp
        from ins True part obtain x' where
          sp: "split_node ?k x (drop ?k pat) h = Inr x'" and cs': "cs' = x' # xs"
          by (auto simp: Let_def split: sum.splits)
        from split_good [OF st refl lt wp sp] have
          g: "kind x' = Static" "segment x' = take ?k (segment x)"
             "routes x' = insert (pat, h) (routes x)" "wf_node x \<longrightarrow> wf_node x'"
          by simp_all
        from kpos ne have "segment x' \<noteq> []" "?hs x' = c"
          using g(2) hd by (simp_all add: hd_take)
        with g cs' show ?thesis by simp
      qed
      then obtain x' where x': "cs' = x' # xs" "kind x' = Static" "segment x' \<noteq> []" "?hs x' = c"
        "routes x' = insert (pat, h) (routes x)" "wf_node x \<longrightarrow> wf_node x'" by blast
      show ?thesis
      proof (rule good_staticI)
        show "(\<Union>y\<in>set cs'. routes y) = insert (pat, h) (\<Union>y\<in>set (x # xs). routes y)"
          using x'(1,5) by auto
        show "static_fork cs' \<and> (\<forall>y\<in>set cs'. wf_node y)"
          if "static_fork (x # xs)" "\<forall>y\<in>set (x # xs). wf_node y"
          using that x' hd by (auto simp: static_fork_def)
        show "?hs ` set cs' \<subseteq> insert c (?hs ` set (x # xs))"
          using x'(1,4) by auto
      qed
    next
      case False
      with ins obtain xs' where
        ixs: "ins_static xs c pat h = Inr xs'" and cs': "cs' = x # xs'"
        by (auto split: sum.splits)
      from "3.hyps"(2) [OF False] ixs wp ex have g: "good_static xs c pat h xs'" by blast
      show ?thesis
      proof (rule good_staticI)
        show "(\<Union>y\<in>set cs'. routes y) = insert (pat, h) (\<Union>y\<in>set (x # xs). routes y)"
          using good_staticD(1) [OF g] by (auto simp: cs')
        show "?hs ` set cs' \<subseteq> insert c (?hs ` set (x # xs))"
          using good_staticD(4) [OF g] by (auto simp: cs')
        show "static_fork cs' \<and> (\<forall>y\<in>set cs'. wf_node y)"
          if a: "static_fork (x # xs)" "\<forall>y\<in>set (x # xs). wf_node y"
        proof -
          from a have sx: "kind x = Static" "segment x \<noteq> []" "?hs x \<notin> ?hs ` set xs"
            and sf: "static_fork xs" and wxs: "\<forall>y\<in>set xs. wf_node y" and wx: "wf_node x"
            by (auto simp: static_fork_def)
          have g': "static_fork xs'" "\<forall>y\<in>set xs'. wf_node y"
            using good_staticD(2,3) [OF g sf wxs] by simp_all
          have s': "?hs ` set xs' \<subseteq> insert c (?hs ` set xs)" by (rule good_staticD(4) [OF g])
          from False sx have "?hs x \<noteq> c" by (simp add: sel_static_def)
          with s' sx(3) have "?hs x \<notin> ?hs ` set xs'" by blast
          with g' sx wx show ?thesis by (auto simp: cs' static_fork_def)
        qed
      qed
    qed
  qed
qed

section \<open>Registration and lookup\<close>

lemma empty_tree_wf: "wf_tree empty_tree"
  by (simp add: wf_tree_def empty_tree_def)

lemma empty_tree_routes: "routes empty_tree = {}"
  by (simp add: empty_tree_def routes_Node below_Node)

lemma is_empty_routes: "is_empty_tree t \<Longrightarrow> routes t = {}"
  by (simp add: is_empty_tree_def routes_pre [of t] below_def)

lemma mk_root_good: "wf_pat pat \<Longrightarrow> wf_tree (mk_root pat h) \<and> routes (mk_root pat h) = {(pat, h)}"
proof -
  assume wp: "wf_pat pat"
  let ?n = "mk_chain pat h"
  show ?thesis
  proof (cases "kind ?n = Static")
    case True
    then show ?thesis using wp by (simp add: mk_root_def wf_tree_def mk_chain_wf mk_chain_routes)
  next
    case False
    then have "fork_ok [?n]" by (simp add: fork_ok_def)
    with False show ?thesis
      using wp by (simp add: mk_root_def Let_def wf_tree_def mk_chain_wf mk_chain_routes routes_Node below_Node)
  qed
qed

lemma add_route_good:
  assumes wt: "wf_tree root" and wp: "wf_pat pat" and ar: "add_route root pat h = Inr root'"
  shows "wf_tree root' \<and> routes root' = insert (pat, h) (routes root)"
proof (cases "is_empty_tree root")
  case True
  with ar have "root' = mk_root pat h" by (simp add: add_route_def)
  with mk_root_good [OF wp, of h] is_empty_routes [OF True] show ?thesis by simp
next
  case False
  from wt have st: "kind root = Static" and wn: "wf_node root" by (simp_all add: wf_tree_def)
  let ?k = "lcp (segment root) pat"
  have lab: "label root = map B (segment root)" using st by (simp add: label_def)
  show ?thesis
  proof (cases "?k = length (segment root)")
    case full: True
    with ar False have ib: "ins_below root (drop ?k pat) h = Inr root'"
      by (simp add: add_route_def Let_def)
    have g: "good_below root (drop ?k pat) h root'"
      using ins_good(1) [rule_format, OF ib wf_pat_drop [OF wp]] .
    have "label root @ drop ?k pat = pat"
      using lcp_pat [of "segment root" pat] full by (simp add: lab)
    with routes_good_below [OF g] have "routes root' = insert (pat, h) (routes root)" by simp
    moreover have "wf_node root'" using good_belowD(4) [OF g wn] st by simp
    moreover have "kind root' = Static" using good_belowD(2) [OF g] st by simp
    ultimately show ?thesis by (simp add: wf_tree_def)
  next
    case part: False
    with lcp_le [of "segment root" pat] have lt: "?k < length (segment root)" by simp
    from ar False part have sp: "split_node ?k root (drop ?k pat) h = Inr root'"
      by (simp add: add_route_def Let_def)
    from split_good [OF st refl lt wp sp] wn show ?thesis by (simp add: wf_tree_def)
  qed
qed

lemma tokenize_wf_pat: "tokenize p = Some pat \<Longrightarrow> wf_pat pat"
proof (induction p arbitrary: pat rule: tokenize.induct)
  case 1
  then show ?case by simp
next
  case (2 c cs)
  show ?case
  proof (cases "c = CHR ''/'' \<and> cs \<noteq> [] \<and> hd cs = CHR ''*''")
    case True
    with "2.prems" show ?thesis by (auto split: if_splits)
  next
    case nc: False
    show ?thesis
    proof (cases "c = CHR '':''")
      case True
      with nc "2.prems" obtain pat' where
        "tokenize (dropWhile (\<lambda>x. x \<noteq> CHR ''/'') cs) = Some pat'"
        "pat = P (takeWhile (\<lambda>x. x \<noteq> CHR ''/'') cs) # pat'"
        "valid_name (takeWhile (\<lambda>x. x \<noteq> CHR ''/'') cs)"
        by (auto simp: Let_def split: if_splits)
      with "2.IH"(1) [OF nc True refl] show ?thesis by simp
    next
      case False
      with nc "2.prems" obtain pat' where "tokenize cs = Some pat'" "pat = B c # pat'" "c \<noteq> CHR ''*''"
        by (auto simp: Let_def split: if_splits)
      with "2.IH"(2) [OF nc False] show ?thesis by simp
    qed
  qed
qed

lemma tokenize_render: "tokenize p = Some pat \<Longrightarrow> render pat = p"
proof (induction p arbitrary: pat rule: tokenize.induct)
  case 1
  then show ?case by simp
next
  case (2 c cs)
  show ?case
  proof (cases "c = CHR ''/'' \<and> cs \<noteq> [] \<and> hd cs = CHR ''*''")
    case True
    with "2.prems" have "pat = [C (tl cs)]" by (auto split: if_splits)
    with True show ?thesis by (cases cs) auto
  next
    case nc: False
    show ?thesis
    proof (cases "c = CHR '':''")
      case True
      with nc "2.prems" obtain pat' where
        "tokenize (dropWhile (\<lambda>x. x \<noteq> CHR ''/'') cs) = Some pat'"
        "pat = P (takeWhile (\<lambda>x. x \<noteq> CHR ''/'') cs) # pat'"
        "valid_name (takeWhile (\<lambda>x. x \<noteq> CHR ''/'') cs)"
        by (auto simp: Let_def split: if_splits)
      with "2.IH"(1) [OF nc True refl] True show ?thesis by simp
    next
      case False
      with nc "2.prems" obtain pat' where "tokenize cs = Some pat'" "pat = B c # pat'" "c \<noteq> CHR ''*''"
        by (auto simp: Let_def split: if_splits)
      with "2.IH"(2) [OF nc False] show ?thesis by simp
    qed
  qed
qed

lemma parse_pattern_tokenize: "parse_pattern p = Inr pat \<Longrightarrow> tokenize p = Some pat"
  by (auto simp: parse_pattern_def split: list.splits if_splits option.splits)

lemma parse_pattern_inj:
  "parse_pattern p1 = Inr pat \<Longrightarrow> parse_pattern p2 = Inr pat \<Longrightarrow> p1 = p2"
  using tokenize_render parse_pattern_tokenize by metis

lemma insert_route_good:
  assumes "wf_tree t" "insert_route t p h = Inr t'"
  shows "\<exists>pat. parse_pattern p = Inr pat \<and> wf_tree t' \<and> routes t' = insert (pat, h) (routes t)"
proof -
  from assms(2) obtain pat where pp: "parse_pattern p = Inr pat" and ar: "add_route t pat h = Inr t'"
    by (auto simp: insert_route_def split: sum.splits)
  from pp have "wf_pat pat" by (intro tokenize_wf_pat parse_pattern_tokenize)
  with add_route_good [OF assms(1) _ ar] pp show ?thesis by blast
qed

lemma reg_routes_simps [simp]:
  "reg_routes [] = {}"
  "parse_pattern p = Inr pat \<Longrightarrow> reg_routes ((p, h) # regs) = insert (pat, h) (reg_routes regs)"
  by (auto simp: reg_routes_def)

lemma build_good:
  "wf_tree t \<Longrightarrow> build t regs = Inr t' \<Longrightarrow>
   wf_tree t' \<and> routes t' = routes t \<union> reg_routes regs
   \<and> (\<forall>(p, h)\<in>set regs. \<exists>pat. parse_pattern p = Inr pat)"
proof (induction regs arbitrary: t)
  case Nil
  then show ?case by simp
next
  case (Cons r regs)
  obtain p h where r: "r = (p, h)" by (cases r)
  with Cons.prems(2) obtain t1 where i: "insert_route t p h = Inr t1" and b: "build t1 regs = Inr t'"
    by (auto split: sum.splits)
  from insert_route_good [OF Cons.prems(1) i] obtain pat where
    pp: "parse_pattern p = Inr pat" and w1: "wf_tree t1" and r1: "routes t1 = insert (pat, h) (routes t)"
    by blast
  from Cons.IH [OF w1 b] have "wf_tree t'" "routes t' = routes t1 \<union> reg_routes regs"
    "\<forall>(p, h)\<in>set regs. \<exists>pat. parse_pattern p = Inr pat" by simp_all
  with r1 pp r show ?case by auto
qed

lemma build_empty:
  assumes "build empty_tree regs = Inr t"
  shows "wf_tree t" "routes t = reg_routes regs" "(p, h) \<in> set regs \<Longrightarrow> \<exists>pat. parse_pattern p = Inr pat"
  using build_good [OF empty_tree_wf assms] by (auto simp: empty_tree_routes)

lemma pattern_match_iff:
  "pattern_match p path = Some ms \<longleftrightarrow> (\<exists>pat. parse_pattern p = Inr pat \<and> pmatch pat path = Some ms)"
  by (cases "parse_pattern p") (simp_all add: pattern_match_def)

lemma walk_reg:
  assumes "build empty_tree regs = Inr t"
  shows "walk t path = Some (h, ms) \<longleftrightarrow> (\<exists>p. (p, h) \<in> set regs \<and> pattern_match p path = Some ms)"
proof -
  from build_empty(1) [OF assms] have "wf_node t" by (simp add: wf_tree_def)
  then have "walk t path = Some (h, ms) \<longleftrightarrow> (\<exists>pat. (pat, h) \<in> routes t \<and> pmatch pat path = Some ms)"
    by (rule walk_iff)
  also have "\<dots> \<longleftrightarrow> (\<exists>p. (p, h) \<in> set regs \<and> pattern_match p path = Some ms)"
    unfolding build_empty(2) [OF assms] reg_routes_def pattern_match_iff
    by blast
  finally show ?thesis .
qed

text \<open>
  C1. When a list of registrations has been inserted into the empty tree of one method
  without error, a path that matches two registered patterns matches one pattern only:
  the two registrations are the same pattern with the same handler and the same
  parameters, and \<open>lookup\<close> returns that handler and those parameters. The meaning of
  "matches" is \<open>pattern_match\<close>, which knows nothing of priorities or of the order of
  registration.
\<close>

theorem lookup_unique:
  assumes b: "build empty_tree regs = Inr t"
    and r1: "(p1, h1) \<in> set regs" and r2: "(p2, h2) \<in> set regs"
    and m1: "pattern_match p1 path = Some ps1" and m2: "pattern_match p2 path = Some ps2"
  shows "p1 = p2 \<and> h1 = h2 \<and> ps1 = ps2 \<and> getValue t path = (Some h1, ps1, False)"
proof -
  from m1 obtain pat1 where pp1: "parse_pattern p1 = Inr pat1" and pm1: "pmatch pat1 path = Some ps1"
    by (auto simp: pattern_match_def split: sum.splits)
  from m2 obtain pat2 where pp2: "parse_pattern p2 = Inr pat2" and pm2: "pmatch pat2 path = Some ps2"
    by (auto simp: pattern_match_def split: sum.splits)
  from r1 pp1 r2 pp2 have "(pat1, h1) \<in> routes t" "(pat2, h2) \<in> routes t"
    unfolding build_empty(2) [OF b] reg_routes_def by blast+
  moreover from build_empty(1) [OF b] have "wf_node t" by (simp add: wf_tree_def)
  ultimately have "pat1 = pat2 \<and> h1 = h2" using pm1 pm2 by (intro routes_unique)
  with pp1 pp2 pm1 pm2 have "p1 = p2" "h1 = h2" "ps1 = ps2"
    using parse_pattern_inj by auto
  moreover have "walk t path = Some (h1, ps1)"
    using walk_reg [OF b] r1 m1 by blast
  ultimately show ?thesis by (simp add: getValue_def)
qed

theorem lookup_unique_witness:
  "\<exists>t. build empty_tree [(''/a/:x'', 1::nat), (''/b'', 2)] = Inr t
     \<and> (''/a/:x'', 1) \<in> set [(''/a/:x'', 1::nat), (''/b'', 2)]
     \<and> pattern_match ''/a/:x'' ''/a/q'' = Some [(''x'', ''q'')]
     \<and> getValue t ''/a/q'' = (Some 1, [(''x'', ''q'')], False)"
proof -
  let ?t = "Node ''/'' Static
              [Node ''a/'' Static [Node ''x'' Param [] 1 (Some (1::nat)) 1] 1 None 1,
               Node ''b'' Static [] 1 (Some 2) 0] 2 None 1"
  have b: "build empty_tree [(''/a/:x'', 1::nat), (''/b'', 2)] = Inr ?t" by code_simp
  have r: "(''/a/:x'', 1) \<in> set [(''/a/:x'', 1::nat), (''/b'', 2)]" by simp
  have m: "pattern_match ''/a/:x'' ''/a/q'' = Some [(''x'', ''q'')]" by code_simp
  from lookup_unique [OF b r r m m]
  have "getValue ?t ''/a/q'' = (Some 1, [(''x'', ''q'')], False)" by simp
  with b r m show ?thesis by blast
qed

text \<open>Two trees built from the same registrations answer every lookup alike.\<close>

lemma lookup_same_set:
  assumes s: "set regs1 = set regs2"
    and b1: "build empty_tree regs1 = Inr t1" and b2: "build empty_tree regs2 = Inr t2"
  shows "getValue t1 path = getValue t2 path"
proof -
  have "walk t1 q = walk t2 q" for q
  proof (cases "walk t1 q")
    case None
    show ?thesis
    proof (cases "walk t2 q")
      case (Some v)
      obtain h ms where "v = (h, ms)" by (cases v)
      with Some walk_reg [OF b2] walk_reg [OF b1] s have "walk t1 q = Some (h, ms)" by metis
      with None show ?thesis by simp
    qed (simp add: None)
  next
    case (Some v)
    obtain h ms where "v = (h, ms)" by (cases v)
    with Some walk_reg [OF b2] walk_reg [OF b1] s have "walk t2 q = Some (h, ms)" by metis
    with Some \<open>v = (h, ms)\<close> show ?thesis by simp
  qed
  then show ?thesis unfolding getValue_def by (simp only:)
qed

section \<open>Patterns that can be registered together\<close>

lemma coexist_sym: "coexist p q = coexist q p"
  by (induction p q rule: coexist.induct) auto

lemma coexist_irrefl: "\<not> coexist p p"
  by (induction p) auto

lemma coexist_prefix: "coexist (l @ p) (l @ q) = coexist p q"
  by (induction l) auto

lemma coexist_Nil [simp]: "coexist [] q = (q \<noteq> [])" "coexist p [] = (p \<noteq> [])"
  by (cases q, simp_all) (cases p, simp_all)

lemma live_sel: "live x \<longleftrightarrow> (handler x \<noteq> None \<or> children x \<noteq> []) \<and> (\<forall>y\<in>set (children x). live y)"
  by (cases x) simp

lemma live_routes: "live x \<Longrightarrow> routes x \<noteq> {}"
proof (induction x)
  case (Node seg k cs pr hdl mp)
  show ?case
  proof (cases hdl)
    case (Some h)
    then show ?thesis by (simp add: routes_Node below_Node pre_def)
  next
    case None
    with Node.prems obtain y ys where cs: "cs = y # ys" by (cases cs) auto
    with Node.prems have "live y" by simp
    with Node.IH [of y] cs have "routes y \<noteq> {}" by simp
    with cs show ?thesis by (auto simp: routes_Node below_Node pre_def)
  qed
qed

lemma all_coexist_simps [simp]:
  "all_coexist {} pat"
  "all_coexist (insert (q, h) R) pat \<longleftrightarrow> coexist pat q \<and> all_coexist R pat"
  "all_coexist (R \<union> S) pat \<longleftrightarrow> all_coexist R pat \<and> all_coexist S pat"
  by (auto simp: all_coexist_def)

lemma all_coexist_pre: "all_coexist (pre l R) (l @ pat) = all_coexist R pat"
  by (auto simp: all_coexist_def pre_def coexist_prefix)

lemma all_coexist_UN: "all_coexist (\<Union>y\<in>A. f y) pat \<longleftrightarrow> (\<forall>y\<in>A. all_coexist (f y) pat)"
  by (auto simp: all_coexist_def)

lemma all_coexist_head:
  "a \<noteq> b \<Longrightarrow> all_coexist (pre (b # l) R) (a # pat) \<longleftrightarrow> R = {} \<or> (isB a \<and> isB b)"
  by (auto simp: all_coexist_def pre_def)

section \<open>Entering a static child\<close>

lemma isl_case [simp]:
  "isl (case r of Inl e \<Rightarrow> Inl e | Inr v \<Rightarrow> Inr (f v)) = isl r"
  by (cases r) simp_all

lemma split_ok: "\<not> isl (split_node k x rest h) \<longleftrightarrow> rest = [] \<or> isB (hd rest)"
proof (cases rest)
  case Nil
  then show ?thesis by (simp add: split_node_def set_handler_def Let_def)
next
  case (Cons s r)
  then show ?thesis by (cases s) (simp_all add: split_node_def Let_def)
qed

lemma set_handler_ok: "\<not> isl (set_handler x h) \<longleftrightarrow> handler x = None"
  by (cases "handler x") (simp_all add: set_handler_def)

lemma label_ne: "proper y \<Longrightarrow> label y \<noteq> []"
  by (cases "kind y") (simp_all add: label_def proper_def)

lemma pre_empty [simp]: "pre l R = {} \<longleftrightarrow> R = {}"
  by (simp add: pre_def)

lemma routes_other_head:
  assumes "proper y" "a \<noteq> hd (label y)"
  shows "all_coexist (routes y) (a # r) \<longleftrightarrow> routes y = {} \<or> (isB a \<and> isB (hd (label y)))"
proof -
  from assms(1) obtain b l where l: "label y = b # l" using label_ne by (cases "label y") auto
  with assms(2) have "a \<noteq> b" by simp
  then have "all_coexist (pre (b # l) (below y)) (a # r) \<longleftrightarrow> below y = {} \<or> (isB a \<and> isB b)"
    by (rule all_coexist_head)
  then show ?thesis by (simp add: routes_pre [of y] l)
qed

lemma below_nonempty_children:
  "proper y \<Longrightarrow> y \<in> set (children x) \<Longrightarrow> (q, h) \<in> routes y \<Longrightarrow> q \<noteq> []"
  using label_ne by (auto simp: routes_iff)

text \<open>Entering a static node whose first byte is the next byte of the pattern, or the root.\<close>

lemma enter_static:
  assumes st: "kind x = Static" and lv: "live x" and wp: "wf_pat pat"
    and IH: "lcp (segment x) pat = length (segment x) \<Longrightarrow>
             \<not> isl (ins_below x (drop (lcp (segment x) pat) pat) h)
               \<longleftrightarrow> all_coexist (below x) (drop (lcp (segment x) pat) pat)"
  shows "\<not> isl (if lcp (segment x) pat = length (segment x)
                then ins_below x (drop (lcp (segment x) pat) pat) h
                else split_node (lcp (segment x) pat) x (drop (lcp (segment x) pat) pat) h)
         \<longleftrightarrow> all_coexist (routes x) pat"
proof -
  let ?k = "lcp (segment x) pat"
  let ?rest = "drop ?k pat"
  have pat: "map B (take ?k (segment x)) @ ?rest = pat" by (rule lcp_pat)
  have rx: "routes x = pre (map B (segment x)) (below x)"
    using st by (simp add: routes_pre [of x] label_def)
  show ?thesis
  proof (cases "?k = length (segment x)")
    case True
    then have "all_coexist (routes x) (map B (segment x) @ ?rest) = all_coexist (below x) ?rest"
      by (simp only: rx all_coexist_pre)
    moreover from True pat have "map B (segment x) @ ?rest = pat" by simp
    ultimately have "all_coexist (routes x) pat = all_coexist (below x) ?rest" by simp
    with IH [OF True] True show ?thesis by simp
  next
    case False
    with lcp_le [of "segment x" pat] have lt: "?k < length (segment x)" by simp
    let ?l = "map B (take ?k (segment x))"
    let ?m = "map B (drop ?k (segment x))"
    have seg: "map B (segment x) = ?l @ ?m" by (simp flip: map_append)
    have "routes x = pre ?l (pre ?m (below x))" by (simp only: rx seg pre_simps(5))
    then have "all_coexist (routes x) (?l @ ?rest) = all_coexist (pre ?m (below x)) ?rest"
      by (simp only: all_coexist_pre)
    then have ac: "all_coexist (routes x) pat = all_coexist (pre ?m (below x)) ?rest"
      by (simp only: pat)
    have ne: "below x \<noteq> {}" using live_routes [OF lv] by (simp add: rx)
    obtain b m' where m: "?m = B b # m'" and b: "b = segment x ! ?k"
      using lt by (cases "drop ?k (segment x)") (auto simp: hd_drop_conv_nth dest: arg_cong [where f = hd])
    have "all_coexist (pre ?m (below x)) ?rest \<longleftrightarrow> ?rest = [] \<or> isB (hd ?rest)"
    proof (cases ?rest)
      case Nil
      then show ?thesis by (auto simp: all_coexist_def pre_def m)
    next
      case (Cons s r)
      show ?thesis
      proof (cases s)
        case (B c)
        with Cons lcp_max [OF lt, of c r] b have "B c \<noteq> B b" by simp
        then have "all_coexist (pre (B b # m') (below x)) (B c # r) \<longleftrightarrow> below x = {} \<or> (isB (B c) \<and> isB (B b))"
          by (rule all_coexist_head)
        with Cons B show ?thesis by (simp add: m)
      next
        case (P nm)
        have "P nm \<noteq> B b" by simp
        then have "all_coexist (pre (B b # m') (below x)) (P nm # r) \<longleftrightarrow> below x = {} \<or> (isB (P nm) \<and> isB (B b))"
          by (rule all_coexist_head)
        with Cons P ne show ?thesis by (simp add: m)
      next
        case (C nm)
        have "C nm \<noteq> B b" by simp
        then have "all_coexist (pre (B b # m') (below x)) (C nm # r) \<longleftrightarrow> below x = {} \<or> (isB (C nm) \<and> isB (B b))"
          by (rule all_coexist_head)
        with Cons C ne show ?thesis by (simp add: m)
      qed
    qed
    with ac False show ?thesis by (simp add: split_ok)
  qed
qed

section \<open>Insertion fails exactly on a conflict\<close>

lemma static_other:
  assumes "kind y = Static" "segment y \<noteq> []" "hd (segment y) \<noteq> c"
  shows "all_coexist (routes y) (B c # r)"
proof -
  from assms(1,2) have py: "proper y" and l: "hd (label y) = B (hd (segment y))"
    by (simp_all add: proper_def label_def hd_map)
  with assms(3) have "B c \<noteq> hd (label y)" by simp
  from routes_other_head [OF py this, of r] l show ?thesis by simp
qed

lemma wild_clash:
  assumes "proper y" "live y" "a \<noteq> hd (label y)" "\<not> isB a \<or> kind y \<noteq> Static"
  shows "\<not> all_coexist (routes y) (a # r)"
proof -
  have "\<not> isB (hd (label y))" if "kind y \<noteq> Static"
    using that by (cases "kind y") (simp_all add: label_def)
  with assms(4) have "\<not> (isB a \<and> isB (hd (label y)))" by blast
  with routes_other_head [OF assms(1,3), of r] live_routes [OF assms(2)] show ?thesis by simp
qed

lemma hd_label_static:
  "proper y \<Longrightarrow> kind y = Static \<Longrightarrow> hd (label y) = B (hd (segment y))"
  by (simp add: proper_def label_def hd_map)

lemma below_split:
  "all_coexist (below x) pat \<longleftrightarrow>
     (handler x \<noteq> None \<longrightarrow> pat \<noteq> []) \<and> (\<forall>y\<in>set (children x). all_coexist (routes y) pat)"
  by (cases "handler x") (auto simp: below_def all_coexist_UN)

lemma ins_ok:
  "wf_node (x :: 'h node) \<longrightarrow> kind x \<noteq> CatchAll \<longrightarrow> (\<forall>y\<in>set (children x). live y) \<longrightarrow> wf_pat pat \<longrightarrow>
     (\<not> isl (ins_below x pat h) \<longleftrightarrow> all_coexist (below x) pat)"
  "static_fork (cs :: 'h node list) \<longrightarrow> (\<forall>y\<in>set cs. wf_node y \<and> live y) \<longrightarrow> wf_pat pat2 \<longrightarrow>
     (\<exists>r. pat2 = B c # r) \<longrightarrow>
     (\<not> isl (ins_static cs c pat2 h2) \<longleftrightarrow> (\<forall>y\<in>set cs. all_coexist (routes y) pat2))"
proof (induct x pat h and cs c pat2 h2 rule: ins_below_ins_static.induct)
  case (1 seg k cs pr hdl mp pat h)
  let ?x = "Node seg k cs pr hdl mp"
  show ?case
  proof (intro impI)
    assume wf: "wf_node ?x" and nc: "kind ?x \<noteq> CatchAll"
      and lv: "\<forall>y\<in>set (children ?x). live y" and wp: "wf_pat pat"
    from wf have fk: "fork_ok cs" and wc: "\<forall>y\<in>set cs. wf_node y" by simp_all
    from lv have lc: "\<forall>y\<in>set cs. live y" by simp
    have pr: "\<forall>y\<in>set cs. proper y" using fk fork_ok_proper by blast
    note bs = below_split [of ?x pat]
    show "\<not> isl (ins_below ?x pat h) \<longleftrightarrow> all_coexist (below ?x) pat"
    proof (cases pat)
      case Nil
      have "all_coexist (below ?x) [] \<longleftrightarrow> (\<forall>(q, h')\<in>below ?x. q \<noteq> [])"
        by (simp add: all_coexist_def)
      also have "\<dots> \<longleftrightarrow> hdl = None"
      proof (cases hdl)
        case None
        have "q \<noteq> []" if "y \<in> set cs" "(q, h') \<in> routes y" for y q h'
        proof -
          from that(1) pr have "label y \<noteq> []" by (simp add: label_ne)
          with that(2) show ?thesis by (auto simp: routes_iff)
        qed
        with None show ?thesis by (auto simp: below_Node)
      next
        case (Some a)
        then show ?thesis by (auto simp: below_Node)
      qed
      finally show ?thesis using Nil by (simp add: set_handler_ok)
    next
      case (Cons s r)
      have own: "(handler ?x \<noteq> None \<longrightarrow> pat \<noteq> [])" using Cons by simp
      show ?thesis
      proof (cases s)
        case (B c)
        show ?thesis
        proof (cases "has_wild cs")
          case True
          then obtain y where y: "y \<in> set cs" "kind y \<noteq> Static"
            by (auto simp: has_wild_def list_ex_iff)
          then have "B c \<noteq> hd (label y)" by (cases "kind y") (simp_all add: label_def)
          with y pr lc have "\<not> all_coexist (routes y) (B c # r)"
            by (intro wild_clash) auto
          with y(1) Cons B True show ?thesis by (auto simp: below_split)
        next
          case False
          with fk have sf: "static_fork cs" by (rule fork_ok_no_wild)
          from "1.hyps"(1) [OF Cons B False] sf wc lc wp Cons B
          have "\<not> isl (ins_static cs c pat h) \<longleftrightarrow> (\<forall>y\<in>set cs. all_coexist (routes y) pat)"
            by blast
          with False Cons B own show ?thesis by (simp add: below_split)
        qed
      next
        case (P nm)
        from wp Cons P have wr: "wf_pat r" by simp
        show ?thesis
        proof (cases cs)
          case Nil
          with Cons P show ?thesis by (simp add: below_split)
        next
          case cs: (Cons y ys)
          show ?thesis
          proof (cases "ys = [] \<and> kind y = Param \<and> segment y = nm")
            case True
            then have ys: "ys = []" and y: "kind y = Param \<and> segment y = nm" by simp_all
            from wc lc cs have wy: "wf_node y" and ly: "live y" by simp_all
            from ly have lcy: "\<forall>z\<in>set (children y). live z" by (simp add: live_sel [of y])
            from y have ncy: "kind y \<noteq> CatchAll" by simp
            from "1.hyps"(2) [OF Cons P cs ys y] wy ncy lcy wr
            have IH: "\<not> isl (ins_below y r h) \<longleftrightarrow> all_coexist (below y) r" by blast
            have "routes y = pre [P nm] (below y)" using y by (simp add: routes_pre [of y] label_def)
            then have "all_coexist (routes y) ([P nm] @ r) = all_coexist (below y) r"
              by (simp only: all_coexist_pre)
            with IH Cons P cs ys y show ?thesis by (simp add: below_split)
          next
            case False
            with Cons P cs have fails: "isl (ins_below ?x pat h)"
              by (cases ys) auto
            have "\<exists>z\<in>set cs. \<not> all_coexist (routes z) (P nm # r)"
            proof (cases "kind y = Param \<and> segment y = nm")
              case True
              with False obtain z zs where ys: "ys = z # zs" by (cases ys) auto
              with fk cs have "kind y = Static" by (auto simp: fork_ok_def)
              with True show ?thesis by simp
            next
              case ny: False
              from pr lc cs have "proper y" "live y" by simp_all
              moreover have "P nm \<noteq> hd (label y)"
                using ny hd_label_static [OF \<open>proper y\<close>]
                by (cases "kind y") (auto simp: label_def)
              ultimately have "\<not> all_coexist (routes y) (P nm # r)"
                by (intro wild_clash) simp_all
              with cs show ?thesis by auto
            qed
            with fails Cons P show ?thesis by (auto simp: below_split)
          qed
        qed
      next
        case (C nm)
        from wp Cons C have r: "r = []" by simp
        show ?thesis
        proof (cases cs)
          case Nil
          with Cons C show ?thesis by (simp add: below_split)
        next
          case cs: (Cons y ys)
          with Cons C have fails: "isl (ins_below ?x pat h)"
            by (cases ys) auto
          from pr lc wc cs have py: "proper y" and ly: "live y" and wy: "wf_node y" by simp_all
          have "\<not> all_coexist (routes y) (C nm # r)"
          proof (cases "kind y = CatchAll \<and> segment y = nm")
            case True
            with wy have "children y = []" by (simp add: wf_node_sel [of y])
            with ly obtain h' where "handler y = Some h'" by (auto simp: live_sel [of y])
            then have "([], h') \<in> below y" by (simp add: below_iff)
            moreover have "label y = [C nm]" using True by (simp add: label_def)
            ultimately have "([C nm], h') \<in> routes y" by (auto simp: routes_iff)
            then show ?thesis using r
              by (auto simp: all_coexist_def intro!: bexI [of _ "([C nm], h')"])
          next
            case False
            then have "C nm \<noteq> hd (label y)"
              using hd_label_static [OF py] by (cases "kind y") (auto simp: label_def)
            with py ly show ?thesis by (intro wild_clash) simp_all
          qed
          with fails Cons C cs show ?thesis by (auto simp: below_split)
        qed
      qed
    qed
  qed
next
  case (2 c pat h)
  show ?case by simp
next
  case (3 x xs c pat h)
  show ?case
  proof (intro impI)
    assume sf: "static_fork (x # xs)" and wl: "\<forall>y\<in>set (x # xs). wf_node y \<and> live y"
      and wp: "wf_pat pat" and ex: "\<exists>r. pat = B c # r"
    then obtain r where pat: "pat = B c # r" by blast
    from sf have sx: "kind x = Static" "segment x \<noteq> []"
      and sxs: "static_fork xs"
      and stx: "\<forall>y\<in>set xs. kind y = Static \<and> segment y \<noteq> []"
      and nin: "hd (segment x) \<notin> (\<lambda>x. hd (segment x)) ` set xs"
      by (auto simp: static_fork_def)
    from nin have dx: "\<forall>y\<in>set xs. hd (segment y) \<noteq> hd (segment x)"
      by (metis imageI)
    from wl have wx: "wf_node x" and lx: "live x" and wlx: "\<forall>y\<in>set xs. wf_node y \<and> live y"
      by simp_all
    show "\<not> isl (ins_static (x # xs) c pat h) \<longleftrightarrow> (\<forall>y\<in>set (x # xs). all_coexist (routes y) pat)"
    proof (cases "sel_static c x")
      case True
      then have hd: "hd (segment x) = c" by (simp add: sel_static_def)
      have others: "\<forall>y\<in>set xs. all_coexist (routes y) pat"
        using stx dx hd pat by (auto intro: static_other)
      let ?k = "lcp (segment x) pat"
      have IH: "?k = length (segment x) \<Longrightarrow>
             \<not> isl (ins_below x (drop ?k pat) h) \<longleftrightarrow> all_coexist (below x) (drop ?k pat)"
      proof -
        assume full: "?k = length (segment x)"
        from lx have "\<forall>z\<in>set (children x). live z" by (simp add: live_sel [of x])
        with "3.hyps"(1) [OF True refl full] wx sx wf_pat_drop [OF wp, of ?k]
        show ?thesis by simp
      qed
      have "\<not> isl (if ?k = length (segment x) then ins_below x (drop ?k pat) h
                   else split_node ?k x (drop ?k pat) h) \<longleftrightarrow> all_coexist (routes x) pat"
        using sx(1) lx wp IH by (rule enter_static)
      moreover have "isl (ins_static (x # xs) c pat h) =
          isl (if ?k = length (segment x) then ins_below x (drop ?k pat) h
               else split_node ?k x (drop ?k pat) h)"
        using True by (simp add: Let_def)
      ultimately show ?thesis using others by simp
    next
      case False
      with sx have "hd (segment x) \<noteq> c" by (simp add: sel_static_def)
      with sx pat have "all_coexist (routes x) pat" by (auto intro: static_other)
      moreover from "3.hyps"(2) [OF False] sxs wlx wp ex
      have "\<not> isl (ins_static xs c pat h) \<longleftrightarrow> (\<forall>y\<in>set xs. all_coexist (routes y) pat)" by blast
      ultimately show ?thesis using False by simp
    qed
  qed
qed

section \<open>Insertion leaves no branch without a route\<close>

lemma mk_chain_live: "live (mk_chain pat h)"
proof (induction pat h rule: mk_chain.induct)
  case (2 c pat h)
  then show ?case by (simp add: Let_def live_sel [of "mk_chain pat h"])
qed simp_all

lemma bubble_live [simp]: "(\<forall>y\<in>set (bubble i cs). live y) = (\<forall>y\<in>set cs. live y)"
  by simp

lemma with_children_live:
  "cs \<noteq> [] \<Longrightarrow> \<forall>y\<in>set cs. live y \<Longrightarrow> live (with_children x cs)"
  by (simp add: with_children_def)

lemma set_handler_live:
  "set_handler x h = Inr x' \<Longrightarrow> \<forall>y\<in>set (children x). live y \<Longrightarrow> live x'"
  by (auto simp: set_handler_def split: option.splits)

lemma bubble_ne [simp]: "bubble i cs \<noteq> [] \<longleftrightarrow> cs \<noteq> []"
  using bubble_length [of i cs] by (metis length_0_conv)

lemma split_live:
  assumes "split_node k x rest h = Inr x'" "live x"
  shows "live x'"
proof -
  let ?old = "Node (drop k (segment x)) (kind x) (children x) (priority x) (handler x) (max_params x)"
  let ?mid = "Node (take k (segment x)) Static [?old] (priority x) None (max_params x)"
  from assms(2) have lo: "live ?old" by (simp add: live_sel [of x])
  show ?thesis
  proof (cases rest)
    case Nil
    with assms(1) have "set_handler ?mid h = Inr x'" by (simp add: split_node_def Let_def)
    moreover from lo have "\<forall>y\<in>set (children ?mid). live y" by simp
    ultimately show ?thesis by (rule set_handler_live)
  next
    case (Cons s r)
    show ?thesis
    proof (cases s)
      case (B c)
      with assms(1) Cons have "x' = with_children ?mid (bubble 1 [?old, mk_chain rest h])"
        by (simp add: split_node_def Let_def)
      moreover have "\<forall>y\<in>set (bubble 1 [?old, mk_chain rest h]). live y"
        using lo mk_chain_live [of rest h] by (simp del: bubble.simps mk_chain.simps)
      moreover have "bubble 1 [?old, mk_chain rest h] \<noteq> []" by (simp del: bubble.simps)
      ultimately show ?thesis by (simp add: with_children_live del: bubble.simps)
    next
      case (P nm)
      with assms(1) Cons show ?thesis by (simp add: split_node_def Let_def)
    next
      case (C nm)
      with assms(1) Cons show ?thesis by (simp add: split_node_def Let_def)
    qed
  qed
qed

lemma ins_live:
  "\<forall>x'. ins_below (x :: 'h node) pat h = Inr x' \<longrightarrow> (\<forall>y\<in>set (children x). live y) \<longrightarrow> live x'"
  "\<forall>cs'. ins_static (cs :: 'h node list) c pat2 h2 = Inr cs' \<longrightarrow> (\<forall>y\<in>set cs. live y) \<longrightarrow>
     cs' \<noteq> [] \<and> (\<forall>y\<in>set cs'. live y)"
proof (induct x pat h and cs c pat2 h2 rule: ins_below_ins_static.induct)
  case (1 seg k cs pr hdl mp pat h)
  let ?x = "Node seg k cs pr hdl mp"
  show ?case
  proof (intro allI impI)
    fix x'
    assume ins: "ins_below ?x pat h = Inr x'" and lc: "\<forall>y\<in>set (children ?x). live y"
    show "live x'"
    proof (cases pat)
      case Nil
      with ins have "set_handler ?x h = Inr x'" by simp
      then show ?thesis using lc by (rule set_handler_live)
    next
      case (Cons s r)
      show ?thesis
      proof (cases s)
        case (B c)
        from ins Cons B have nw: "\<not> has_wild cs" by (simp split: if_splits)
        with ins Cons B obtain cs' where
          st: "ins_static cs c pat h = Inr cs'" and
          x': "x' = with_children ?x (bubble (static_index c cs) cs')"
          by (auto split: sum.splits)
        from "1.hyps"(1) [OF Cons B nw] st lc have "cs' \<noteq> []" "\<forall>y\<in>set cs'. live y" by auto
        then show ?thesis by (simp add: x' with_children_live)
      next
        case (P nm)
        show ?thesis
        proof (cases cs)
          case Nil
          with ins Cons P have "x' = with_children ?x [mk_chain pat h]" by simp
          then show ?thesis using mk_chain_live [of pat h]
            by (simp add: with_children_live del: mk_chain.simps)
        next
          case cs: (Cons y ys)
          with ins Cons P have ys: "ys = []" and y: "kind y = Param \<and> segment y = nm"
            by (auto split: list.splits if_splits)
          with ins Cons P cs obtain y' where
            iy: "ins_below y r h = Inr y'" and x': "x' = with_children ?x [y']"
            by (auto split: sum.splits)
          from lc cs have "\<forall>z\<in>set (children y). live z" by (simp add: live_sel [of y])
          with "1.hyps"(2) [OF Cons P cs ys y] iy have "live y'" by blast
          then show ?thesis by (simp add: x' with_children_live)
        qed
      next
        case (C nm)
        with ins Cons have cs: "cs = []" by (auto split: list.splits if_splits)
        with ins Cons C have "x' = with_children ?x [mk_chain pat h]" by simp
        then show ?thesis using mk_chain_live [of pat h]
          by (simp add: with_children_live del: mk_chain.simps)
      qed
    qed
  qed
next
  case (2 c pat h)
  show ?case using mk_chain_live [of pat h] by (simp del: mk_chain.simps)
next
  case (3 x xs c pat h)
  show ?case
  proof (intro allI impI)
    fix cs'
    assume ins: "ins_static (x # xs) c pat h = Inr cs'" and lc: "\<forall>y\<in>set (x # xs). live y"
    show "cs' \<noteq> [] \<and> (\<forall>y\<in>set cs'. live y)"
    proof (cases "sel_static c x")
      case True
      let ?k = "lcp (segment x) pat"
      show ?thesis
      proof (cases "?k = length (segment x)")
        case full: True
        with ins True obtain x' where
          ix: "ins_below x (drop ?k pat) h = Inr x'" and cs': "cs' = x' # xs"
          by (auto simp: Let_def split: sum.splits)
        from lc have "\<forall>z\<in>set (children x). live z" by (simp add: live_sel [of x])
        with "3.hyps"(1) [OF True refl full] ix have "live x'" by blast
        with lc cs' show ?thesis by simp
      next
        case part: False
        with ins True obtain x' where
          sp: "split_node ?k x (drop ?k pat) h = Inr x'" and cs': "cs' = x' # xs"
          by (auto simp: Let_def split: sum.splits)
        from lc have "live x" by simp
        with sp have "live x'" by (rule split_live)
        with lc cs' show ?thesis by simp
      qed
    next
      case False
      with ins obtain xs' where
        ixs: "ins_static xs c pat h = Inr xs'" and cs': "cs' = x # xs'"
        by (auto split: sum.splits)
      from "3.hyps"(2) [OF False] ixs lc have "\<forall>y\<in>set xs'. live y" by auto
      with lc cs' show ?thesis by simp
    qed
  qed
qed

lemma mk_root_live: "live (mk_root pat h)"
  using mk_chain_live [of pat h] by (simp add: mk_root_def Let_def del: mk_chain.simps)

lemma add_route_ok:
  assumes ok: "tree_ok t" and wp: "wf_pat pat"
  shows "\<not> isl (add_route t pat h) \<longleftrightarrow> all_coexist (routes t) pat"
proof (cases "is_empty_tree t")
  case True
  then show ?thesis by (simp add: add_route_def is_empty_routes)
next
  case False
  with ok have st: "kind t = Static" and wn: "wf_node t" and lv: "live t"
    by (simp_all add: tree_ok_def wf_tree_def)
  let ?k = "lcp (segment t) pat"
  have IH: "?k = length (segment t) \<Longrightarrow>
        \<not> isl (ins_below t (drop ?k pat) h) \<longleftrightarrow> all_coexist (below t) (drop ?k pat)"
  proof -
    from lv have "\<forall>z\<in>set (children t). live z" by (simp add: live_sel [of t])
    with ins_ok(1) [of t "drop ?k pat" h] wn st wf_pat_drop [OF wp, of ?k]
    show ?thesis by simp
  qed
  have "\<not> isl (if ?k = length (segment t) then ins_below t (drop ?k pat) h
               else split_node ?k t (drop ?k pat) h) \<longleftrightarrow> all_coexist (routes t) pat"
    using st lv wp IH by (rule enter_static)
  with False show ?thesis by (simp add: add_route_def Let_def)
qed

lemma add_route_tree_ok:
  assumes ok: "tree_ok t" and wp: "wf_pat pat" and ar: "add_route t pat h = Inr t'"
  shows "tree_ok t'"
proof -
  from ok have wt: "wf_tree t" by (simp add: tree_ok_def)
  from add_route_good [OF wt wp ar] have wt': "wf_tree t'" by simp
  have "live t'"
  proof (cases "is_empty_tree t")
    case True
    with ar have "t' = mk_root pat h" by (simp add: add_route_def)
    then show ?thesis by (simp only: mk_root_live)
  next
    case False
    with ok have lv: "live t" by (simp add: tree_ok_def)
    then have lc: "\<forall>z\<in>set (children t). live z" by (simp add: live_sel [of t])
    let ?k = "lcp (segment t) pat"
    show ?thesis
    proof (cases "?k = length (segment t)")
      case True
      with ar False have ib: "ins_below t (drop ?k pat) h = Inr t'" by (simp add: add_route_def Let_def)
      show ?thesis using lc by (intro ins_live(1) [rule_format, OF ib]) simp
    next
      case part: False
      with ar False have "split_node ?k t (drop ?k pat) h = Inr t'" by (simp add: add_route_def Let_def)
      then show ?thesis using lv by (rule split_live)
    qed
  qed
  with wt' show ?thesis by (simp add: tree_ok_def)
qed

lemma empty_tree_ok: "tree_ok empty_tree"
  using empty_tree_wf by (simp add: tree_ok_def is_empty_tree_def empty_tree_def)

section \<open>Which lists of registrations build a tree\<close>

lemma parse_wf_pat: "parse_pattern p = Inr pat \<Longrightarrow> wf_pat pat"
  by (intro tokenize_wf_pat parse_pattern_tokenize)

lemma insert_route_ok:
  assumes ok: "tree_ok t"
  shows "\<not> isl (insert_route t p h) \<longleftrightarrow> \<not> isl (parse_pattern p) \<and> all_coexist (routes t) (toks p)"
proof (cases "parse_pattern p")
  case (Inl e)
  then show ?thesis by (simp add: insert_route_def)
next
  case (Inr pat)
  with add_route_ok [OF ok parse_wf_pat [OF Inr], of h] show ?thesis
    by (simp add: insert_route_def toks_def)
qed

lemma insert_route_tree_ok:
  assumes ok: "tree_ok t" and ir: "insert_route t p h = Inr t'"
  shows "tree_ok t' \<and> routes t' = insert (toks p, h) (routes t)"
proof -
  from ir obtain pat where pp: "parse_pattern p = Inr pat" and ar: "add_route t pat h = Inr t'"
    by (auto simp: insert_route_def split: sum.splits)
  from ok have wt: "wf_tree t" by (simp add: tree_ok_def)
  from add_route_tree_ok [OF ok parse_wf_pat [OF pp] ar]
       add_route_good [OF wt parse_wf_pat [OF pp] ar] pp
  show ?thesis by (simp add: toks_def)
qed

lemma conflict_free_Cons:
  "conflict_free ((p, h) # regs) \<longleftrightarrow>
     \<not> isl (parse_pattern p) \<and> conflict_free regs \<and> (\<forall>(q, h')\<in>set regs. coexist (toks q) (toks p))"
proof -
  have a: "(p \<notin> fst ` set regs \<and> (\<forall>(q, h')\<in>set regs. p \<noteq> q \<longrightarrow> coexist (toks q) (toks p)))
           \<longleftrightarrow> (\<forall>(q, h')\<in>set regs. coexist (toks q) (toks p))"
  proof
    assume l: "p \<notin> fst ` set regs \<and> (\<forall>(q, h')\<in>set regs. p \<noteq> q \<longrightarrow> coexist (toks q) (toks p))"
    show "\<forall>(q, h')\<in>set regs. coexist (toks q) (toks p)"
    proof (clarify)
      fix q h' assume m: "(q, h') \<in> set regs"
      with l have "p \<noteq> q" by force
      with l m show "coexist (toks q) (toks p)" by blast
    qed
  next
    assume r: "\<forall>(q, h')\<in>set regs. coexist (toks q) (toks p)"
    have "p \<notin> fst ` set regs"
    proof
      assume "p \<in> fst ` set regs"
      then obtain h' where "(p, h') \<in> set regs" by force
      with r have "coexist (toks p) (toks p)" by blast
      then show False by (simp add: coexist_irrefl)
    qed
    with r show "p \<notin> fst ` set regs \<and> (\<forall>(q, h')\<in>set regs. p \<noteq> q \<longrightarrow> coexist (toks q) (toks p))"
      by blast
  qed
  have b: "(\<forall>(q, h')\<in>set regs. p \<noteq> q \<longrightarrow> coexist (toks p) (toks q))
           \<longleftrightarrow> (\<forall>(q, h')\<in>set regs. p \<noteq> q \<longrightarrow> coexist (toks q) (toks p))"
    by (simp add: coexist_sym)
  have "conflict_free ((p, h) # regs) \<longleftrightarrow>
      \<not> isl (parse_pattern p) \<and> conflict_free regs
      \<and> (p \<notin> fst ` set regs \<and> (\<forall>(q, h')\<in>set regs. p \<noteq> q \<longrightarrow> coexist (toks q) (toks p)))"
    unfolding conflict_free_def using b by (auto simp: coexist_sym)
  with a show ?thesis by simp
qed

lemma fits_simps:
  "fits R ((p, h) # regs) \<longleftrightarrow> all_coexist R (toks p) \<and> fits R regs"
  "fits (insert (pat, h) R) regs \<longleftrightarrow> (\<forall>(q, h')\<in>set regs. coexist (toks q) pat) \<and> fits R regs"
  by (auto simp: fits_def)

lemma build_ok:
  "tree_ok t \<Longrightarrow> \<not> isl (build t regs) \<longleftrightarrow> conflict_free regs \<and> fits (routes t) regs"
proof (induction regs arbitrary: t)
  case Nil
  then show ?case by (simp add: conflict_free_def fits_def)
next
  case (Cons r regs)
  obtain p h where r: "r = (p, h)" by (cases r)
  show ?case
  proof (cases "insert_route t p h")
    case (Inl e)
    with insert_route_ok [OF Cons.prems, of p h]
    have "\<not> (\<not> isl (parse_pattern p) \<and> all_coexist (routes t) (toks p))" by simp
    with Inl r show ?thesis by (auto simp: conflict_free_Cons fits_simps)
  next
    case (Inr t')
    with insert_route_ok [OF Cons.prems, of p h]
    have pp: "\<not> isl (parse_pattern p)" and ac: "all_coexist (routes t) (toks p)" by simp_all
    from insert_route_tree_ok [OF Cons.prems Inr]
    have ok': "tree_ok t'" and rt: "routes t' = insert (toks p, h) (routes t)" by simp_all
    have "\<not> isl (build t (r # regs)) \<longleftrightarrow> \<not> isl (build t' regs)" using r Inr by simp
    also have "\<dots> \<longleftrightarrow> conflict_free regs \<and> fits (routes t') regs" by (rule Cons.IH [OF ok'])
    also have "\<dots> \<longleftrightarrow> conflict_free (r # regs) \<and> fits (routes t) (r # regs)"
      using pp ac by (auto simp: r rt conflict_free_Cons fits_simps)
    finally show ?thesis .
  qed
qed

lemma build_empty_ok: "\<not> isl (build empty_tree regs) \<longleftrightarrow> conflict_free regs"
  using build_ok [OF empty_tree_ok, of regs] by (simp add: empty_tree_routes fits_def)

lemma conflict_free_mset:
  assumes "mset regs1 = mset regs2"
  shows "conflict_free regs1 = conflict_free regs2"
proof -
  from assms have s: "set regs1 = set regs2" by (rule mset_eq_setD)
  from assms have "mset (map fst regs1) = mset (map fst regs2)" by (metis mset_map)
  then have "distinct (map fst regs1) = distinct (map fst regs2)" by (rule mset_eq_imp_distinct_iff)
  with s show ?thesis by (simp add: conflict_free_def)
qed

lemma build_reorder:
  assumes "mset regs2 = mset regs1" "build empty_tree regs1 = Inr t1"
  shows "\<exists>t2. build empty_tree regs2 = Inr t2"
proof -
  from assms(2) have "\<not> isl (build empty_tree regs1)" by simp
  then have "conflict_free regs1" by (simp add: build_empty_ok)
  with conflict_free_mset [OF assms(1)] have "conflict_free regs2" by simp
  then have "\<not> isl (build empty_tree regs2)" by (simp add: build_empty_ok)
  then show ?thesis by (cases "build empty_tree regs2") simp_all
qed

section \<open>Registration order\<close>

text \<open>
  C7. Lookup does not depend on the order of registration: when a list of registrations
  builds a tree without error, the same registrations in any other order build a tree
  without error too, and for every path the two trees give the same lookup outcome: the
  same handler, the same parameters and the same trailing-slash hint.
\<close>

theorem lookup_order_independent:
  assumes m: "mset regs2 = mset regs1" and b1: "build empty_tree regs1 = Inr t1"
  shows "\<exists>t2. build empty_tree regs2 = Inr t2 \<and> (\<forall>path. getValue t2 path = getValue t1 path)"
proof -
  from build_reorder [OF m b1] obtain t2 where b2: "build empty_tree regs2 = Inr t2" ..
  from m have s: "set regs2 = set regs1" by (rule mset_eq_setD)
  have "getValue t2 path = getValue t1 path" for path
    by (rule lookup_same_set [OF s b2 b1])
  with b2 show ?thesis by blast
qed

theorem lookup_order_independent_witness:
  "mset [(''/b'', 2), (''/a/:x'', 1::nat)] = mset [(''/a/:x'', 1), (''/b'', 2)]
   \<and> (\<exists>t1 t2. build empty_tree [(''/a/:x'', 1::nat), (''/b'', 2)] = Inr t1
         \<and> build empty_tree [(''/b'', 2), (''/a/:x'', 1::nat)] = Inr t2
         \<and> t1 \<noteq> t2
         \<and> getValue t2 ''/a/q'' = getValue t1 ''/a/q'')"
proof -
  let ?t1 = "Node ''/'' Static
              [Node ''a/'' Static [Node ''x'' Param [] 1 (Some (1::nat)) 1] 1 None 1,
               Node ''b'' Static [] 1 (Some 2) 0] 2 None 1"
  let ?t2 = "Node ''/'' Static
              [Node ''b'' Static [] 1 (Some 2) 0,
               Node ''a/'' Static [Node ''x'' Param [] 1 (Some (1::nat)) 1] 1 None 1] 2 None 1"
  have m: "mset [(''/b'', 2), (''/a/:x'', 1::nat)] = mset [(''/a/:x'', 1), (''/b'', 2)]" by simp
  have b1: "build empty_tree [(''/a/:x'', 1::nat), (''/b'', 2)] = Inr ?t1" by code_simp
  have b2: "build empty_tree [(''/b'', 2), (''/a/:x'', 1::nat)] = Inr ?t2" by code_simp
  have ne: "?t1 \<noteq> ?t2" by simp
  from lookup_order_independent [OF m b1] obtain t2
    where b: "build empty_tree [(''/b'', 2), (''/a/:x'', 1::nat)] = Inr t2"
      and g: "\<forall>path. getValue t2 path = getValue ?t1 path" by blast
  from b b2 have "t2 = ?t2" by simp
  with g have "getValue ?t2 ''/a/q'' = getValue ?t1 ''/a/q''" by simp
  with m b1 b2 ne show ?thesis by blast
qed

section \<open>The examples of the specification, evaluated\<close>

lemma example_round_trip_capture:
  "\<exists>t. build empty_tree [(''/blog/:category/:post'', 7::nat)] = Inr t
     \<and> getValue t ''/blog/go/routers'' = (Some 7, [(''category'', ''go''), (''post'', ''routers'')], False)
     \<and> getValue t ''/blog/go/routers/'' = (None, [], True)
     \<and> getValue t ''/blog/go/'' = (None, [], False)"
proof -
  let ?t = "Node ''/blog/'' Static
     [Node ''category'' Param [Node ''/'' Static [Node ''post'' Param [] 1 (Some (7::nat)) 1] 1 None 1] 1 None 2]
     1 None 2"
  have "build empty_tree [(''/blog/:category/:post'', 7::nat)] = Inr ?t" by code_simp
  moreover have "getValue ?t ''/blog/go/routers'' = (Some 7, [(''category'', ''go''), (''post'', ''routers'')], False)"
    by code_simp
  moreover have "getValue ?t ''/blog/go/routers/'' = (None, [], True)" by code_simp
  moreover have "getValue ?t ''/blog/go/'' = (None, [], False)" by code_simp
  ultimately show ?thesis by blast
qed

lemma example_catch_all:
  "\<exists>t. build empty_tree [(''/src/*filepath'', 7::nat)] = Inr t
     \<and> getValue t ''/src/a/b.go'' = (Some 7, [(''filepath'', ''/a/b.go'')], False)
     \<and> getValue t ''/src/'' = (Some 7, [(''filepath'', ''/'')], False)
     \<and> getValue t ''/src'' = (None, [], True)"
proof -
  let ?t = "Node ''/src'' Static [Node ''filepath'' CatchAll [] 1 (Some (7::nat)) 1] 1 None 1"
  have "build empty_tree [(''/src/*filepath'', 7::nat)] = Inr ?t" by code_simp
  moreover have "getValue ?t ''/src/a/b.go'' = (Some 7, [(''filepath'', ''/a/b.go'')], False)"
    by code_simp
  moreover have "getValue ?t ''/src/'' = (Some 7, [(''filepath'', ''/'')], False)" by code_simp
  moreover have "getValue ?t ''/src'' = (None, [], True)" by code_simp
  ultimately show ?thesis by blast
qed

lemma example_conflict_rejection:
  "build (empty_tree :: nat node) [(''/user/new'', 1), (''/user/:id'', 2)] = Inl RouteConflict"
  "build (empty_tree :: nat node) [(''/user/:id'', 2), (''/user/new'', 1)] = Inl RouteConflict"
  "build (empty_tree :: nat node) [(''/user/new'', 1), (''/user/new'', 2)] = Inl DuplicateRoute"
  "build (empty_tree :: nat node) [(''user'', 1)] = Inl InvalidPattern"
  "build (empty_tree :: nat node) [(''/src/*filepath/x'', 1)] = Inl InvalidPattern"
  "build (empty_tree :: nat node) [(''/a/:x/:x'', 1)] = Inl InvalidPattern"
  by code_simp+

section \<open>Canonicalization\<close>

lemma segments_good_aux:
  "CHR ''/'' \<notin> set cur \<Longrightarrow> s \<in> set (segments cur p) \<Longrightarrow> good s"
proof (induction cur p rule: segments.induct)
  case (1 cur)
  then show ?case by (cases "cur = []") (simp_all add: good_def)
next
  case (2 cur c cs)
  show ?case
  proof (cases "c = CHR ''/''")
    case slash: True
    show ?thesis
    proof (cases "cur = []")
      case True
      with slash "2.prems" have "s \<in> set (segments [] cs)" by simp
      with "2.IH"(1) [OF slash True] show ?thesis by simp
    next
      case False
      with slash "2.prems" have "s = cur \<or> s \<in> set (segments [] cs)" by simp
      then show ?thesis
      proof
        assume "s = cur"
        with False "2.prems"(1) show ?thesis by (simp add: good_def)
      next
        assume "s \<in> set (segments [] cs)"
        with "2.IH"(2) [OF slash False] show ?thesis by simp
      qed
    qed
  next
    case False
    with "2.prems" have "s \<in> set (segments (cur @ [c]) cs)" "CHR ''/'' \<notin> set (cur @ [c])"
      by simp_all
    with "2.IH"(3) [OF False] show ?thesis by blast
  qed
qed

lemma segments_good: "\<forall>s\<in>set (segments [] p). good s"
  using segments_good_aux [of "[]"] by simp

lemma segments_app:
  "CHR ''/'' \<notin> set s \<Longrightarrow> segments cur (s @ rest) = segments (cur @ s) rest"
  by (induction s arbitrary: cur) auto

lemma segments_join:
  "\<forall>s\<in>set stack. good s \<Longrightarrow> rest = [] \<or> hd rest = CHR ''/'' \<Longrightarrow>
   segments [] (join_path stack @ rest) = stack @ segments [] rest"
proof (induction stack)
  case Nil
  then show ?case by (simp add: join_path_def)
next
  case (Cons s stack)
  then have gs: "good s" and IH: "segments [] (join_path stack @ rest) = stack @ segments [] rest"
    by simp_all
  let ?r = "join_path stack @ rest"
  have hd: "?r = [] \<or> hd ?r = CHR ''/''"
    using Cons.prems(2) by (cases stack) (auto simp: join_path_def)
  have "segments [] (join_path (s # stack) @ rest) = segments [] (s @ ?r)"
    by (simp add: join_path_def)
  also have "\<dots> = segments s ?r" using gs by (simp add: segments_app good_def)
  also have "\<dots> = s # segments [] ?r"
    using hd gs by (cases ?r) (auto simp: good_def)
  finally show ?case using IH by simp
qed

lemma resolve_plain:
  "\<forall>s\<in>set ss. s \<noteq> ''.'' \<and> s \<noteq> ''..'' \<Longrightarrow> resolve st ss = rev st @ ss"
  by (induction ss arbitrary: st) auto

lemma resolve_set:
  "set (resolve st ss) \<subseteq> set st \<union> {s \<in> set ss. s \<noteq> ''.'' \<and> s \<noteq> ''..''}"
proof (induction st ss rule: resolve.induct)
  case (1 st)
  then show ?case by simp
next
  case (2 st s ss)
  have "set (tl st) \<subseteq> set st" by (cases st) auto
  with 2 show ?case by (auto split: if_splits)
qed

lemma last_join_path:
  "stack \<noteq> [] \<Longrightarrow> \<forall>s\<in>set stack. good s \<Longrightarrow>
   join_path stack \<noteq> [] \<and> last (join_path stack) \<noteq> CHR ''/''"
proof (induction stack rule: rev_induct)
  case Nil
  then show ?case by simp
next
  case (snoc s stack)
  then have "good s" by simp
  then have ne: "s \<noteq> []" and ns: "CHR ''/'' \<notin> set s" by (simp_all add: good_def)
  from ne have "last s \<in> set s" by (rule last_in_set)
  with ns have "last s \<noteq> CHR ''/''" by metis
  with ne show ?case by (simp add: join_path_def)
qed

lemma clean_twice: "clean (clean p) = clean p"
proof -
  let ?stack = "resolve [] (segments [] p)"
  let ?t = "if p \<noteq> [] \<and> last p = CHR ''/'' then ''/'' else []"
  have g0: "\<forall>s\<in>set (segments [] p). good s" by (rule segments_good)
  have sub: "set ?stack \<subseteq> {s \<in> set (segments [] p). s \<noteq> ''.'' \<and> s \<noteq> ''..''}"
    using resolve_set [of "[]" "segments [] p"] by simp
  with g0 have g: "\<forall>s\<in>set ?stack. good s" and nd: "\<forall>s\<in>set ?stack. s \<noteq> ''.'' \<and> s \<noteq> ''..''"
    by auto
  show ?thesis
  proof (cases "?stack = []")
    case True
    then have "clean p = ''/''" by (simp add: clean_def)
    then show ?thesis by (simp add: clean_def)
  next
    case False
    then have c: "clean p = join_path ?stack @ ?t" by (simp add: clean_def Let_def)
    have "segments [] (join_path ?stack @ ?t) = ?stack @ segments [] ?t"
      by (rule segments_join [OF g]) simp
    then have seg: "segments [] (clean p) = ?stack" by (simp add: c)
    have res: "resolve [] ?stack = ?stack" using resolve_plain [OF nd, of "[]"] by simp
    from last_join_path [OF False g]
    have tr: "(clean p \<noteq> [] \<and> last (clean p) = CHR ''/'') = (p \<noteq> [] \<and> last p = CHR ''/'')"
      by (simp add: c)
    have "clean (clean p) = join_path ?stack @ (if clean p \<noteq> [] \<and> last (clean p) = CHR ''/'' then ''/'' else [])"
      using False by (simp add: clean_def [of "clean p"] seg res Let_def)
    also have "\<dots> = join_path ?stack @ ?t" by (simp only: tr)
    finally show ?thesis by (simp only: c)
  qed
qed

text \<open>
  C6. Canonicalization is idempotent, \<open>clean(clean(p)) = clean(p)\<close> for every path
  \<open>p\<close>, and \<open>clean("/a//b/../c/.") = "/a/c"\<close>.
\<close>

theorem clean_idempotent:
  "clean (clean p) = clean p \<and> clean ''/a//b/../c/.'' = ''/a/c''"
proof
  show "clean (clean p) = clean p" by (rule clean_twice)
  show "clean ''/a//b/../c/.'' = ''/a/c''" by code_simp
qed

section \<open>The calls made by ServeHTTP\<close>

lemma recording_simps [simp]:
  "call_getValue (recording c) n path s = (node_getValue c n path, s @ [GetValue n path])"
  "call_CleanPath (recording c) path s = (path_CleanPath c path, s @ [CleanPath path])"
  "call_findCaseInsensitivePath (recording c) n path b s =
     (node_findCaseInsensitivePath c n path b, s @ [FindCaseInsensitivePath n path b])"
  "val_DefaultServeMux (recording c) = http_DefaultServeMux c"
  "val_NotFound (recording c) = http_NotFound c"
  by (simp_all add: recording_def)

lemma allowed_loop_calls:
  "\<exists>tl. snd (allowed_loop (recording c) m path ts s) = s @ tl \<and> (\<forall>e\<in>set tl. \<exists>n. e = GetValue n path)"
proof (induction ts arbitrary: s)
  case Nil
  then show ?case by simp
next
  case (Cons t ts)
  obtain m0 n where t: "t = (m0, n)" by (cases t)
  show ?case
  proof (cases "m0 = m")
    case True
    with Cons.IH [of s] t show ?thesis by simp
  next
    case False
    obtain h ps tsr where gv: "node_getValue c n path = (h, ps, tsr)" by (cases "node_getValue c n path")
    show ?thesis
    proof (cases h)
      case None
      from Cons.IH [of "s @ [GetValue n path]"] obtain tl
        where tl: "snd (allowed_loop (recording c) m path ts (s @ [GetValue n path])) = (s @ [GetValue n path]) @ tl"
          and gs: "\<forall>e\<in>set tl. \<exists>n. e = GetValue n path" by blast
      have "snd (allowed_loop (recording c) m path (t # ts) s) = s @ (GetValue n path # tl)"
        using t False gv None tl by simp
      moreover have "\<forall>e\<in>set (GetValue n path # tl). \<exists>n. e = GetValue n path" using gs by simp
      ultimately show ?thesis by blast
    next
      case (Some a)
      have "snd (allowed_loop (recording c) m path (t # ts) s) = s @ [GetValue n path]"
        using t False gv Some by simp
      moreover have "\<forall>e\<in>set [GetValue n path]. \<exists>n. e = GetValue n path" by simp
      ultimately show ?thesis by blast
    qed
  qed
qed

lemma not_routed_calls:
  "\<exists>tl. snd (not_routed (recording c) r req s) = s @ tl \<and> (\<forall>e\<in>set tl. \<exists>n. e = GetValue n (Path req))"
proof (cases "HandleMethodNotAllowed r")
  case True
  from allowed_loop_calls [of c "Method req" "Path req" "trees r" s] obtain tl
    where tl: "snd (allowed_loop (recording c) (Method req) (Path req) (trees r) s) = s @ tl"
      and gs: "\<forall>e\<in>set tl. \<exists>n. e = GetValue n (Path req)" by blast
  have "snd (not_routed (recording c) r req s) = s @ tl"
    using True tl by (cases "allowed_loop (recording c) (Method req) (Path req) (trees r) s")
      (simp add: not_routed_def)
  with gs show ?thesis by blast
next
  case False
  then have "snd (not_routed (recording c) r req s) = s @ []" by (simp add: not_routed_def)
  then show ?thesis by (intro exI [of _ "[]"]) simp
qed

lemma run_no_tree:
  "map_of (trees r) (Method req) = None \<Longrightarrow>
   ServeHTTP (recording c) r req [] = not_routed (recording c) r req []"
  by (simp add: ServeHTTP_def)

lemma run_match:
  "map_of (trees r) (Method req) = Some root \<Longrightarrow>
   node_getValue c root (Path req) = (Some next, ps, tsr) \<Longrightarrow>
   ServeHTTP (recording c) r req [] =
     (Serve (if middleware r \<noteq> []
             then Then (http_DefaultServeMux c) (middleware r) (Some next)
             else Returns next) ps, [GetValue root (Path req)])"
  by (simp add: ServeHTTP_def)

lemma run_fixing:
  "map_of (trees r) (Method req) = Some root \<Longrightarrow>
   node_getValue c root (Path req) = (None, ps, tsr) \<Longrightarrow> fixing r req tsr \<Longrightarrow>
   node_findCaseInsensitivePath c root (path_CleanPath c (Path req)) (RedirectTrailingSlash r) = (fp, found) \<Longrightarrow>
   ServeHTTP (recording c) r req [] =
     (if found then (Redirect fp (if Method req \<noteq> ''GET'' then 307 else 301),
                     [GetValue root (Path req), CleanPath (Path req),
                      FindCaseInsensitivePath root (path_CleanPath c (Path req)) (RedirectTrailingSlash r)])
      else not_routed (recording c) r req
             [GetValue root (Path req), CleanPath (Path req),
              FindCaseInsensitivePath root (path_CleanPath c (Path req)) (RedirectTrailingSlash r)])"
  by (auto simp add: ServeHTTP_def fixing_def Let_def)

lemma run_no_fixing:
  "map_of (trees r) (Method req) = Some root \<Longrightarrow>
   node_getValue c root (Path req) = (None, ps, tsr) \<Longrightarrow> \<not> fixing r req tsr \<Longrightarrow>
   ServeHTTP (recording c) r req [] =
     (if Method req \<noteq> ''CONNECT'' \<and> Path req \<noteq> ''/'' \<and> tsr \<and> RedirectTrailingSlash r
      then (Redirect (if length (Path req) > 1 \<and> last (Path req) = CHR ''/''
                      then butlast (Path req) else Path req @ ''/'')
              (if Method req \<noteq> ''GET'' then 307 else 301), [GetValue root (Path req)])
      else not_routed (recording c) r req [GetValue root (Path req)])"
  by (auto simp add: ServeHTTP_def fixing_def Let_def)

text \<open>The three shapes of the list of calls.\<close>

lemma calls_shape:
  "(\<exists>tl. (\<forall>e\<in>set tl. \<exists>n. e = GetValue n (Path req)) \<and>
      (map_of (trees r) (Method req) = None \<and> calls_of c r req = tl
       \<or> (\<exists>root h ps tsr. map_of (trees r) (Method req) = Some root
            \<and> node_getValue c root (Path req) = (h, ps, tsr)
            \<and> (h = None \<and> fixing r req tsr
                 \<and> calls_of c r req = GetValue root (Path req) # CleanPath (Path req)
                     # FindCaseInsensitivePath root (path_CleanPath c (Path req)) (RedirectTrailingSlash r) # tl
               \<or> \<not> (h = None \<and> fixing r req tsr)
                 \<and> calls_of c r req = GetValue root (Path req) # tl))))"
proof (cases "map_of (trees r) (Method req)")
  case None
  from not_routed_calls [of c r req "[]"] obtain tl
    where "snd (not_routed (recording c) r req []) = [] @ tl"
      and "\<forall>e\<in>set tl. \<exists>n. e = GetValue n (Path req)" by blast
  with None run_no_tree [OF None, of c] show ?thesis
    unfolding calls_of_def by (intro exI [of _ tl]) simp
next
  case (Some root)
  obtain h ps tsr where gv: "node_getValue c root (Path req) = (h, ps, tsr)"
    by (cases "node_getValue c root (Path req)")
  let ?G = "GetValue root (Path req)"
  let ?F = "FindCaseInsensitivePath root (path_CleanPath c (Path req)) (RedirectTrailingSlash r)"
  show ?thesis
  proof (cases h)
    case (Some nxt)
    with run_match [OF \<open>map_of (trees r) (Method req) = Some root\<close>, of c nxt ps tsr] gv
    have "calls_of c r req = ?G # []" by (simp add: calls_of_def)
    with \<open>map_of (trees r) (Method req) = Some root\<close> gv Some show ?thesis
      by (intro exI [of _ "[]"]) simp
  next
    case None
    note gvN = gv [unfolded None]
    show ?thesis
    proof (cases "fixing r req tsr")
      case True
      obtain fp found where fc:
        "node_findCaseInsensitivePath c root (path_CleanPath c (Path req)) (RedirectTrailingSlash r) = (fp, found)"
        by (cases "node_findCaseInsensitivePath c root (path_CleanPath c (Path req)) (RedirectTrailingSlash r)")
      note run = run_fixing [OF \<open>map_of (trees r) (Method req) = Some root\<close> gvN True fc]
      from not_routed_calls [of c r req "[?G, CleanPath (Path req), ?F]"] obtain tl
        where tl: "snd (not_routed (recording c) r req [?G, CleanPath (Path req), ?F])
                   = [?G, CleanPath (Path req), ?F] @ tl"
          and gs: "\<forall>e\<in>set tl. \<exists>n. e = GetValue n (Path req)" by blast
      show ?thesis
      proof (cases found)
        case True
        with run have "calls_of c r req = ?G # CleanPath (Path req) # ?F # []"
          by (simp add: calls_of_def)
        with \<open>map_of (trees r) (Method req) = Some root\<close> gvN \<open>fixing r req tsr\<close> show ?thesis
          by (intro exI [of _ "[]"]) simp
      next
        case False
        with run tl have "calls_of c r req = ?G # CleanPath (Path req) # ?F # tl"
          by (simp add: calls_of_def)
        with \<open>map_of (trees r) (Method req) = Some root\<close> gvN \<open>fixing r req tsr\<close> gs show ?thesis
          by (intro exI [of _ tl]) simp
      qed
    next
      case False
      note run = run_no_fixing [OF \<open>map_of (trees r) (Method req) = Some root\<close> gvN False]
      from not_routed_calls [of c r req "[?G]"] obtain tl
        where tl: "snd (not_routed (recording c) r req [?G]) = [?G] @ tl"
          and gs: "\<forall>e\<in>set tl. \<exists>n. e = GetValue n (Path req)" by blast
      show ?thesis
      proof (cases "Method req \<noteq> ''CONNECT'' \<and> Path req \<noteq> ''/'' \<and> tsr \<and> RedirectTrailingSlash r")
        case True
        with run have "calls_of c r req = ?G # []" by (simp add: calls_of_def)
        with \<open>map_of (trees r) (Method req) = Some root\<close> gvN False show ?thesis
          by (intro exI [of _ "[]"]) simp
      next
        case nr: False
        with run tl have "calls_of c r req = ?G # tl" by (simp add: calls_of_def)
        with \<open>map_of (trees r) (Method req) = Some root\<close> gvN False gs show ?thesis
          by (intro exI [of _ tl]) simp
      qed
    qed
  qed
qed

text \<open>
  C5. The calls \<open>ServeHTTP\<close> makes, each recorded by the function called with the
  arguments it received. Every call of the matcher is given the raw request path. When the
  method has a tree, the first call made is the primary match on the raw path, and when
  that match finds a handler no other call is made and that handler is served with the
  parameters of the match. The canonicalizer is called only after a primary match that
  found no handler, once, on the raw path, and what it returns goes to the corrector, which
  is called with nothing else; the matcher is never called on that result.
\<close>

theorem ServeHTTP_match_before_clean:
  "(\<forall>n p. GetValue n p \<in> set (calls_of c r req) \<longrightarrow> p = Path req)
   \<and> (\<forall>root. map_of (trees r) (Method req) = Some root \<longrightarrow>
        (\<exists>tl. calls_of c r req = GetValue root (Path req) # tl))
   \<and> (\<forall>root handle ps tsr.
        map_of (trees r) (Method req) = Some root
        \<and> node_getValue c root (Path req) = (Some handle, ps, tsr) \<longrightarrow>
        calls_of c r req = [GetValue root (Path req)]
        \<and> answer_of c r req =
            Serve (if middleware r \<noteq> []
                   then Then (http_DefaultServeMux c) (middleware r) (Some handle)
                   else Returns handle) ps)
   \<and> (\<forall>p. CleanPath p \<in> set (calls_of c r req) \<longrightarrow>
        p = Path req \<and>
        (\<exists>root ps tsr tl. map_of (trees r) (Method req) = Some root
           \<and> node_getValue c root (Path req) = (None, ps, tsr) \<and> fixing r req tsr
           \<and> calls_of c r req =
               GetValue root (Path req) # CleanPath (Path req)
               # FindCaseInsensitivePath root (path_CleanPath c (Path req)) (RedirectTrailingSlash r)
               # tl
           \<and> (\<forall>e\<in>set tl. \<exists>n. e = GetValue n (Path req))))
   \<and> (\<forall>n q b. FindCaseInsensitivePath n q b \<in> set (calls_of c r req) \<longrightarrow>
        q = path_CleanPath c (Path req) \<and> CleanPath (Path req) \<in> set (calls_of c r req))
   \<and> (\<forall>root ps tsr.
        map_of (trees r) (Method req) = Some root
        \<and> node_getValue c root (Path req) = (None, ps, tsr) \<and> fixing r req tsr \<longrightarrow>
        CleanPath (Path req) \<in> set (calls_of c r req)
        \<and> (snd (node_findCaseInsensitivePath c root (path_CleanPath c (Path req)) (RedirectTrailingSlash r)) \<longrightarrow>
             answer_of c r req =
               Redirect (fst (node_findCaseInsensitivePath c root (path_CleanPath c (Path req))
                                (RedirectTrailingSlash r)))
                        (if Method req \<noteq> ''GET'' then 307 else 301)))"
proof -
  let ?cs = "calls_of c r req"
  let ?F = "\<lambda>root. FindCaseInsensitivePath root (path_CleanPath c (Path req)) (RedirectTrailingSlash r)"
  from calls_shape [of req r c] obtain tl where gs: "\<forall>e\<in>set tl. \<exists>n. e = GetValue n (Path req)"
    and sh: "map_of (trees r) (Method req) = None \<and> ?cs = tl
       \<or> (\<exists>root h ps tsr. map_of (trees r) (Method req) = Some root
            \<and> node_getValue c root (Path req) = (h, ps, tsr)
            \<and> (h = None \<and> fixing r req tsr
                 \<and> ?cs = GetValue root (Path req) # CleanPath (Path req) # ?F root # tl
               \<or> \<not> (h = None \<and> fixing r req tsr)
                 \<and> ?cs = GetValue root (Path req) # tl))"
    by blast
  from sh consider
      (none) "map_of (trees r) (Method req) = None" "?cs = tl"
    | (corr) root ps tsr where "map_of (trees r) (Method req) = Some root"
        "node_getValue c root (Path req) = (None, ps, tsr)" "fixing r req tsr"
        "?cs = GetValue root (Path req) # CleanPath (Path req) # ?F root # tl"
    | (plain) root h ps tsr where "map_of (trees r) (Method req) = Some root"
        "node_getValue c root (Path req) = (h, ps, tsr)" "\<not> (h = None \<and> fixing r req tsr)"
        "?cs = GetValue root (Path req) # tl"
    by (elim disjE exE conjE) blast+
  note cases3 = this
  have c1: "\<forall>n p. GetValue n p \<in> set ?cs \<longrightarrow> p = Path req"
  proof (cases rule: cases3)
    case none
    with gs show ?thesis by auto
  next
    case corr
    with gs show ?thesis by auto
  next
    case plain
    with gs show ?thesis by auto
  qed
  have c2: "\<forall>root. map_of (trees r) (Method req) = Some root \<longrightarrow>
              (\<exists>tl. ?cs = GetValue root (Path req) # tl)"
  proof (cases rule: cases3)
    case none
    then show ?thesis by simp
  next
    case corr
    then show ?thesis by simp
  next
    case plain
    then show ?thesis by simp
  qed
  have c3: "\<forall>root handle ps tsr.
        map_of (trees r) (Method req) = Some root
        \<and> node_getValue c root (Path req) = (Some handle, ps, tsr) \<longrightarrow>
        ?cs = [GetValue root (Path req)]
        \<and> answer_of c r req =
            Serve (if middleware r \<noteq> []
                   then Then (http_DefaultServeMux c) (middleware r) (Some handle)
                   else Returns handle) ps"
  proof (intro allI impI, elim conjE)
    fix root handle ps tsr
    assume "map_of (trees r) (Method req) = Some root"
      and "node_getValue c root (Path req) = (Some handle, ps, tsr)"
    from run_match [OF this] show "?cs = [GetValue root (Path req)]
        \<and> answer_of c r req =
            Serve (if middleware r \<noteq> []
                   then Then (http_DefaultServeMux c) (middleware r) (Some handle)
                   else Returns handle) ps"
      by (simp add: calls_of_def answer_of_def)
  qed
  have c4: "\<forall>p. CleanPath p \<in> set ?cs \<longrightarrow>
        p = Path req \<and>
        (\<exists>root ps tsr tl. map_of (trees r) (Method req) = Some root
           \<and> node_getValue c root (Path req) = (None, ps, tsr) \<and> fixing r req tsr
           \<and> ?cs = GetValue root (Path req) # CleanPath (Path req) # ?F root # tl
           \<and> (\<forall>e\<in>set tl. \<exists>n. e = GetValue n (Path req)))"
  proof (cases rule: cases3)
    case none
    with gs show ?thesis by auto
  next
    case corr
    have "\<exists>root ps tsr tl. map_of (trees r) (Method req) = Some root
           \<and> node_getValue c root (Path req) = (None, ps, tsr) \<and> fixing r req tsr
           \<and> ?cs = GetValue root (Path req) # CleanPath (Path req) # ?F root # tl
           \<and> (\<forall>e\<in>set tl. \<exists>n. e = GetValue n (Path req))"
      using corr gs by blast
    moreover have "\<forall>p. CleanPath p \<in> set ?cs \<longrightarrow> p = Path req" using corr(4) gs by auto
    ultimately show ?thesis by blast
  next
    case plain
    with gs show ?thesis by auto
  qed
  have c5: "\<forall>n q b. FindCaseInsensitivePath n q b \<in> set ?cs \<longrightarrow>
        q = path_CleanPath c (Path req) \<and> CleanPath (Path req) \<in> set ?cs"
  proof (cases rule: cases3)
    case none
    with gs show ?thesis by auto
  next
    case corr
    with gs show ?thesis by auto
  next
    case plain
    with gs show ?thesis by auto
  qed
  have c6: "\<forall>root ps tsr.
        map_of (trees r) (Method req) = Some root
        \<and> node_getValue c root (Path req) = (None, ps, tsr) \<and> fixing r req tsr \<longrightarrow>
        CleanPath (Path req) \<in> set ?cs
        \<and> (snd (node_findCaseInsensitivePath c root (path_CleanPath c (Path req)) (RedirectTrailingSlash r)) \<longrightarrow>
             answer_of c r req =
               Redirect (fst (node_findCaseInsensitivePath c root (path_CleanPath c (Path req))
                                (RedirectTrailingSlash r)))
                        (if Method req \<noteq> ''GET'' then 307 else 301))"
  proof (intro allI impI, elim conjE)
    fix root ps tsr
    assume m: "map_of (trees r) (Method req) = Some root"
      and gv: "node_getValue c root (Path req) = (None, ps, tsr)" and fx: "fixing r req tsr"
    obtain fp found where fc:
      "node_findCaseInsensitivePath c root (path_CleanPath c (Path req)) (RedirectTrailingSlash r) = (fp, found)"
      by (cases "node_findCaseInsensitivePath c root (path_CleanPath c (Path req)) (RedirectTrailingSlash r)")
    have mem: "CleanPath (Path req) \<in> set ?cs"
    proof (cases rule: cases3)
      case none
      with m show ?thesis by simp
    next
      case corr
      then show ?thesis by simp
    next
      case plain
      with m gv fx show ?thesis by simp
    qed
    have "found \<Longrightarrow> answer_of c r req = Redirect fp (if Method req \<noteq> ''GET'' then 307 else 301)"
      using run_fixing [OF m gv fx fc] by (simp add: answer_of_def)
    with mem fc show "CleanPath (Path req) \<in> set ?cs
        \<and> (snd (node_findCaseInsensitivePath c root (path_CleanPath c (Path req)) (RedirectTrailingSlash r)) \<longrightarrow>
             answer_of c r req =
               Redirect (fst (node_findCaseInsensitivePath c root (path_CleanPath c (Path req))
                                (RedirectTrailingSlash r)))
                        (if Method req \<noteq> ''GET'' then 307 else 301))"
      by simp
  qed
  from c1 c2 c3 c4 c5 c6 show ?thesis by (intro conjI)
qed

theorem ServeHTTP_match_before_clean_witness:
  "CleanPath ''/bar//'' \<in> set (calls_of
      \<lparr>node_new = empty_tree, node_addRoute = (\<lambda>n p h. Returns n), node_getValue = getValue,
       node_findCaseInsensitivePath = (\<lambda>n p b. (p, False)), path_CleanPath = clean,
       http_DefaultServeMux = (0::nat), http_NotFound = 0\<rparr>
      (New\<lparr>trees := [(''GET'', Node ''/foo'' Static [] 1 (Some 1) 0)]\<rparr>)
      \<lparr>Method = ''GET'', Path = ''/bar//''\<rparr>)
   \<and> take 3 (calls_of
      \<lparr>node_new = empty_tree, node_addRoute = (\<lambda>n p h. Returns n), node_getValue = getValue,
       node_findCaseInsensitivePath = (\<lambda>n p b. (p, False)), path_CleanPath = clean,
       http_DefaultServeMux = (0::nat), http_NotFound = 0\<rparr>
      (New\<lparr>trees := [(''GET'', Node ''/foo'' Static [] 1 (Some 1) 0)]\<rparr>)
      \<lparr>Method = ''GET'', Path = ''/bar//''\<rparr>)
     = [GetValue (Node ''/foo'' Static [] 1 (Some 1) 0) ''/bar//'', CleanPath ''/bar//'',
        FindCaseInsensitivePath (Node ''/foo'' Static [] 1 (Some 1) 0) ''/bar/'' True]
   \<and> map_of (trees (New\<lparr>trees := [(''GET'', Node ''/foo'' Static [] 1 (Some (1::nat)) 0)]\<rparr>
                    :: (nat node, nat) Router)) ''GET''
       = Some (Node ''/foo'' Static [] 1 (Some 1) 0)
   \<and> getValue (Node ''/foo'' Static [] 1 (Some (1::nat)) 0) ''/foo'' = (Some 1, [], False)
   \<and> calls_of
      \<lparr>node_new = empty_tree, node_addRoute = (\<lambda>n p h. Returns n), node_getValue = getValue,
       node_findCaseInsensitivePath = (\<lambda>n p b. (p, False)), path_CleanPath = clean,
       http_DefaultServeMux = (0::nat), http_NotFound = 0\<rparr>
      (New\<lparr>trees := [(''GET'', Node ''/foo'' Static [] 1 (Some 1) 0)]\<rparr>)
      \<lparr>Method = ''GET'', Path = ''/foo''\<rparr>
     = [GetValue (Node ''/foo'' Static [] 1 (Some 1) 0) ''/foo'']
   \<and> answer_of
      \<lparr>node_new = empty_tree, node_addRoute = (\<lambda>n p h. Returns n), node_getValue = getValue,
       node_findCaseInsensitivePath = (\<lambda>n p b. (p, False)), path_CleanPath = clean,
       http_DefaultServeMux = (0::nat), http_NotFound = 0\<rparr>
      (New\<lparr>trees := [(''GET'', Node ''/foo'' Static [] 1 (Some 1) 0)]\<rparr>)
      \<lparr>Method = ''GET'', Path = ''/foo''\<rparr>
     = Serve (Returns 1) []"
proof -
  let ?c = "\<lparr>node_new = empty_tree, node_addRoute = (\<lambda>n p h. Returns n), node_getValue = getValue,
       node_findCaseInsensitivePath = (\<lambda>n p b. (p, False)), path_CleanPath = clean,
       http_DefaultServeMux = (0::nat), http_NotFound = 0\<rparr>"
  let ?root = "Node ''/foo'' Static [] 1 (Some (1::nat)) 0"
  let ?r = "New\<lparr>trees := [(''GET'', ?root)]\<rparr> :: (nat node, nat) Router"
  let ?q = "\<lparr>Method = ''GET'', Path = ''/bar//''\<rparr>"
  let ?q' = "\<lparr>Method = ''GET'', Path = ''/foo''\<rparr>"
  have tree: "map_of (trees ?r) ''GET'' = Some ?root" by (simp add: New_def)
  have cl: "clean ''/bar//'' = ''/bar/''" by code_simp
  have gv: "getValue ?root ''/foo'' = (Some 1, [], False)" by code_simp
  have gv': "getValue ?root ''/bar//'' = (None, [], False)" by code_simp
  have mem: "CleanPath ''/bar//'' \<in> set (calls_of ?c ?r ?q)"
  proof -
    have t: "map_of (trees ?r) (Method ?q) = Some ?root" using tree by simp
    have g: "node_getValue ?c ?root (Path ?q) = (None, [], False)" using gv' by simp
    have f: "fixing ?r ?q False" by (simp add: fixing_def New_def)
    have fc: "node_findCaseInsensitivePath ?c ?root (path_CleanPath ?c (Path ?q)) (RedirectTrailingSlash ?r)
              = (path_CleanPath ?c (Path ?q), False)" by simp
    let ?pre = "[GetValue ?root (Path ?q), CleanPath (Path ?q),
                 FindCaseInsensitivePath ?root (path_CleanPath ?c (Path ?q)) (RedirectTrailingSlash ?r)]"
    from run_fixing [OF t g f fc]
    have "calls_of ?c ?r ?q = snd (not_routed (recording ?c) ?r ?q ?pre)"
      by (simp only: calls_of_def if_False)
    moreover from not_routed_calls [of ?c ?r ?q ?pre] obtain tl
      where "snd (not_routed (recording ?c) ?r ?q ?pre) = ?pre @ tl" by blast
    ultimately have "calls_of ?c ?r ?q = ?pre @ tl" by (simp only:)
    then have "CleanPath (Path ?q) \<in> set (calls_of ?c ?r ?q)" by simp
    then show ?thesis by simp
  qed
  note fourth = ServeHTTP_match_before_clean [of ?c ?r ?q, THEN conjunct2, THEN conjunct2,
        THEN conjunct2, THEN conjunct1, rule_format, OF mem]
  then obtain root tl where m: "map_of (trees ?r) (Method ?q) = Some root"
    and cs: "calls_of ?c ?r ?q =
               GetValue root (Path ?q) # CleanPath (Path ?q)
               # FindCaseInsensitivePath root (path_CleanPath ?c (Path ?q)) (RedirectTrailingSlash ?r)
               # tl"
    by (elim conjE exE)
  from m tree have "root = ?root" by simp
  with cs cl have three: "take 3 (calls_of ?c ?r ?q)
     = [GetValue ?root ''/bar//'', CleanPath ''/bar//'', FindCaseInsensitivePath ?root ''/bar/'' True]"
    by (simp add: New_def)
  have pre: "map_of (trees ?r) (Method ?q') = Some ?root
        \<and> node_getValue ?c ?root (Path ?q') = (Some 1, [], False)"
    using tree gv by simp
  note third = ServeHTTP_match_before_clean [of ?c ?r ?q', THEN conjunct2, THEN conjunct2,
        THEN conjunct1, rule_format, OF pre]
  then have served: "calls_of ?c ?r ?q' = [GetValue ?root ''/foo'']"
      "answer_of ?c ?r ?q' = Serve (Returns 1) []"
    by (simp_all add: New_def)
  from mem three tree gv served show ?thesis by (intro conjI)
qed

section \<open>Registration and lookup in router.go\<close>

text \<open>
  C2 (as amended). For every non-empty pattern that does not begin with \<open>/\<close>, and every
  method, middleware and handle, the registration panics with "path must begin with '/'"
  and leaves the router as it was; nothing is returned.
\<close>

theorem Handle_rejects_missing_slash:
  "path \<noteq> [] \<Longrightarrow> hd path \<noteq> CHR ''/'' \<Longrightarrow>
   Handle c r method path mw handle = (r, Panics PathMustBeginWithSlash)"
  by (cases path) (simp_all add: Handle_def)

theorem Handle_rejects_missing_slash_witness:
  "''abc'' \<noteq> [] \<and> hd ''abc'' \<noteq> CHR ''/''
   \<and> Handle \<lparr>node_new = empty_tree, node_addRoute = (\<lambda>n p h. Returns n), node_getValue = getValue,
       node_findCaseInsensitivePath = (\<lambda>n p b. (p, False)), path_CleanPath = clean,
       http_DefaultServeMux = (0::nat), http_NotFound = 0\<rparr> New ''GET'' ''abc'' [] 1
     = (New, Panics PathMustBeginWithSlash)"
  using Handle_rejects_missing_slash [of "''abc''" _ New "''GET''" "[]" "1::nat"] by simp

text \<open>
  C2 (counterexample). Registering the pattern \<open>abc\<close> does not return: the error is a
  panic, and the closure of \<open>Handle\<close> has no result in which an error value could be returned.
\<close>

theorem Handle_no_error_value_counterexample:
  "\<not> (\<exists>v. snd (Handle \<lparr>node_new = empty_tree, node_addRoute = (\<lambda>n p h. Returns n),
       node_getValue = getValue, node_findCaseInsensitivePath = (\<lambda>n p b. (p, False)),
       path_CleanPath = clean, http_DefaultServeMux = (0::nat), http_NotFound = 0\<rparr>
       New ''GET'' ''abc'' [] 1) = Returns v)"
  by (simp add: Handle_def)

text \<open>
  C4 (code evaluated at the failing input). Registering the empty pattern evaluates
  \<open>path[0]\<close> on the empty string: the call ends in the runtime's index-out-of-range
  panic, not in the panic "path must begin with '/'".
\<close>

theorem Handle_empty_pattern_index_panic:
  "Handle c r method [] mw handle = (r, Panics IndexOutOfRange)"
  by (simp add: Handle_def)















end
